theory Spec2Isabelle
  imports Complex_Main "HOL-Library.Word"
begin

unbundle bit_operations_syntax

section \<open>Constants of ctrlADC.h and ctrlTimer.h\<close>

definition N_ADC_INPUT :: int where
  "N_ADC_INPUT = 5"

definition N_ADC_BUFFERS :: int where
  "N_ADC_BUFFERS = 64"

definition N_ADC_BUFFER_POS :: int where
  "N_ADC_BUFFER_POS = 16"

definition TIMER_PRESCALER_DIV :: int where
  "TIMER_PRESCALER_DIV = 1024"

definition CPU_HZ :: int where
  "CPU_HZ = 48000000"

section \<open>Faults\<close>

text \<open>
  Every way in which a function of the firmware can fail to return a defined result is a
  value: a busy-wait on a synchronisation bit that never clears (\<open>Hang\<close>), an array access
  outside the declared dimensions (\<open>OutOfBounds\<close>), a shift by a negative count
  (\<open>UndefinedShift\<close>), an integer division by zero (\<open>DivideByZero\<close>) and a signed 32-bit
  overflow (\<open>IntOverflow\<close>).
\<close>

datatype fault = Hang | OutOfBounds | UndefinedShift | DivideByZero | IntOverflow

section \<open>The peripheral's synchronisation wait\<close>

text \<open>
  \<^verbatim>\<open>while (ADC->STATUS.bit.SYNCBUSY) ;\<close> polls a bit that only the hardware changes. The
  peripheral is modelled by the sequence of values the bit presents on successive reads of
  the STATUS register: \<open>busy k\<close> is what the \<open>k\<close>-th read returns. The loop returns the
  number of reads made so far, and does not return (\<open>None\<close>) when the bit stays set.
\<close>

partial_function (option) wait_sync :: "(nat \<Rightarrow> bool) \<Rightarrow> nat \<Rightarrow> nat option" where
  "wait_sync busy k = (if busy k then wait_sync busy (Suc k) else Some (Suc k))"

text \<open>A peripheral is responsive when its synchronisation bit always clears again.\<close>

definition responsive :: "(nat \<Rightarrow> bool) \<Rightarrow> bool" where
  "responsive busy = (\<forall>k. \<exists>j. k \<le> j \<and> \<not> busy j)"

definition always_busy :: "nat \<Rightarrow> bool" where
  "always_busy k = True"

definition busy_twice :: "nat \<Rightarrow> bool" where
  "busy_twice k = (k mod 3 \<noteq> 2)"

section \<open>The ADC peripheral and the globals of ctrlADC.cpp\<close>

text \<open>
  The analog pins. \<open>regInputs\<close> lists the pins of the five inputs; the board's table
  \<open>g_APinDescription\<close>, which gives each pin its ADC channel number, belongs to the board
  support package, so the MUXPOS field is modelled as holding the pin whose channel number
  was written to it.
\<close>

datatype pin = A0 | A1 | A2 | A3 | A4 | A5

definition regInputs :: "pin list" where
  "regInputs = [A1, A2, A3, A4, A5]"

text \<open>The names of the gain encodings of the INPUTCTRL register (from the device header).\<close>

datatype gain_val =
    ADC_INPUTCTRL_GAIN_1X_Val
  | ADC_INPUTCTRL_GAIN_2X_Val
  | ADC_INPUTCTRL_GAIN_4X_Val
  | ADC_INPUTCTRL_GAIN_8X_Val
  | ADC_INPUTCTRL_GAIN_16X_Val
  | ADC_INPUTCTRL_GAIN_DIV2_Val

text \<open>
  The registers of the ADC the code touches. \<open>FLUSHES\<close> counts the writes of SWTRIG.FLUSH;
  \<open>STARTS\<close> lists, oldest first, the MUXPOS selection at each write of SWTRIG.START (one
  start-conversion request each); \<open>in_flight\<close> is set by a start request and cleared when
  the result-ready interrupt is served by reading RESULT; \<open>SYNCBUSY\<close> and \<open>STATUS_reads\<close>
  are the synchronisation bit's sequence and the number of reads of it so far.
\<close>

record adc_regs =
  MUXPOS :: pin
  GAIN :: gain_val
  RESULT :: "16 word"
  FLUSHES :: nat
  STARTS :: "pin list"
  in_flight :: bool
  SYNCBUSY :: "nat \<Rightarrow> bool"
  STATUS_reads :: nat

text \<open>
  The globals of ctrlADC.cpp. \<open>ADC_buffer\<close> is the array
  \<^verbatim>\<open>int16_t ADC_buffer[N_ADC_INPUT][N_ADC_BUFFERS][N_ADC_BUFFER_POS]\<close>; it is indexed
  here by three integers, and every access goes through \<open>in_bounds\<close>. The two \<^verbatim>\<open>int\<close>
  variables are mathematical integers.
\<close>

record adc_state =
  ADC_EnabledInputs :: "8 word"
  ADC_buffer :: "int \<Rightarrow> int \<Rightarrow> int \<Rightarrow> 16 word"
  iBuffer :: "8 word"
  iBufferPos :: int
  iBufferTransmit :: "8 word"
  iReadInput :: int
  ADC_Gain :: "8 word"
  ADC :: adc_regs

definition in_bounds :: "int \<Rightarrow> int \<Rightarrow> int \<Rightarrow> bool" where
  "in_bounds i j k =
     (0 \<le> i \<and> i < N_ADC_INPUT \<and> 0 \<le> j \<and> j < N_ADC_BUFFERS \<and> 0 \<le> k \<and> k < N_ADC_BUFFER_POS)"

definition ADC_buffer_read ::
  "(int \<Rightarrow> int \<Rightarrow> int \<Rightarrow> 16 word) \<Rightarrow> int \<Rightarrow> int \<Rightarrow> int \<Rightarrow> (16 word) option" where
  "ADC_buffer_read buf i j k = (if in_bounds i j k then Some (buf i j k) else None)"

definition ADC_buffer_write ::
  "(int \<Rightarrow> int \<Rightarrow> int \<Rightarrow> 16 word) \<Rightarrow> int \<Rightarrow> int \<Rightarrow> int \<Rightarrow> 16 word
     \<Rightarrow> (int \<Rightarrow> int \<Rightarrow> int \<Rightarrow> 16 word) option" where
  "ADC_buffer_write buf i j k v =
     (if in_bounds i j k
      then Some (\<lambda>i' j' k'. if i' = i \<and> j' = j \<and> k' = k then v else buf i' j' k')
      else None)"

text \<open>\<^verbatim>\<open>while (ADC->STATUS.bit.SYNCBUSY) ;\<close> on the state.\<close>

definition ADC_sync :: "adc_state \<Rightarrow> fault + adc_state" where
  "ADC_sync s =
     (case wait_sync (SYNCBUSY (ADC s)) (STATUS_reads (ADC s)) of
        None \<Rightarrow> Inl Hang
      | Some k \<Rightarrow> Inr (s\<lparr>ADC := (ADC s)\<lparr>STATUS_reads := k\<rparr>\<rparr>))"

subsection \<open>ADC_StartRead\<close>

text \<open>
  The body of the \<^verbatim>\<open>if\<close> of ADC_StartRead: select the input's pin, flush, trigger the
  conversion (waiting for synchronisation after each write) and record the input being
  read.
\<close>

definition start_conversion :: "int \<Rightarrow> adc_state \<Rightarrow> fault + adc_state" where
  "start_conversion iInput s =
     (case ADC_sync (s\<lparr>ADC := (ADC s)\<lparr>MUXPOS := regInputs ! nat iInput\<rparr>\<rparr>) of
        Inl e \<Rightarrow> Inl e
      | Inr s1 \<Rightarrow>
     (case ADC_sync (s1\<lparr>ADC := (ADC s1)\<lparr>FLUSHES := Suc (FLUSHES (ADC s1))\<rparr>\<rparr>) of
        Inl e \<Rightarrow> Inl e
      | Inr s2 \<Rightarrow>
     (case ADC_sync (s2\<lparr>ADC := (ADC s2)\<lparr>STARTS := STARTS (ADC s2) @ [MUXPOS (ADC s2)],
                                           in_flight := True\<rparr>\<rparr>) of
        Inl e \<Rightarrow> Inl e
      | Inr s3 \<Rightarrow> Inr (s3\<lparr>iReadInput := iInput\<rparr>))))"

text \<open>
  \<^verbatim>\<open>ADC_EnabledInputs & (1 << iInput)\<close>: both operands are promoted to 32-bit
  \<^verbatim>\<open>int\<close>; the shift count is in \<open>[0, 5)\<close> wherever the test is evaluated.
\<close>

definition input_enabled :: "8 word \<Rightarrow> int \<Rightarrow> bool" where
  "input_enabled enabled iInput =
     ((ucast enabled :: 32 word) AND push_bit (nat iInput) 1 \<noteq> 0)"

text \<open>
  The \<^verbatim>\<open>for\<close> loop of ADC_StartRead, from \<open>iInput\<close> on. A negative \<open>iInput\<close> (reachable
  only when \<open>iReadInput < -1\<close>) makes the shift undefined.
\<close>

function ADC_StartRead_loop :: "int \<Rightarrow> adc_state \<Rightarrow> fault + adc_state" where
  "ADC_StartRead_loop iInput s =
     (if iInput < N_ADC_INPUT then
        (if iInput < 0 then Inl UndefinedShift
         else if input_enabled (ADC_EnabledInputs s) iInput then start_conversion iInput s
         else ADC_StartRead_loop (iInput + 1) s)
      else Inr s)"
  by pat_completeness auto
termination
  by (relation "measure (\<lambda>(iInput, s). nat (N_ADC_INPUT - iInput))") auto

definition ADC_StartRead :: "adc_state \<Rightarrow> fault + adc_state" where
  "ADC_StartRead s = ADC_StartRead_loop (iReadInput s + 1) s"

subsection \<open>ADC_UpdateBufferIdx\<close>

definition ADC_UpdateBufferIdx :: "adc_state \<Rightarrow> adc_state" where
  "ADC_UpdateBufferIdx s =
     (if ADC_EnabledInputs s \<noteq> 0 then
        (let s1 = s\<lparr>iBufferPos := iBufferPos s + 1\<rparr>;
             s2 = (if iBufferPos s1 = N_ADC_BUFFER_POS
                   then s1\<lparr>iBufferTransmit := iBuffer s1,
                           iBuffer := word_of_int (uint (iBuffer s1 + 1) mod N_ADC_BUFFERS),
                           iBufferPos := 0\<rparr>
                   else s1)
         in s2\<lparr>iReadInput := - 1\<rparr>)
      else s)"

subsection \<open>ADC_setGain\<close>

text \<open>The code after the \<^verbatim>\<open>switch\<close>: wait for synchronisation, record the gain.\<close>

definition gain_written :: "8 word \<Rightarrow> gain_val \<Rightarrow> adc_state \<Rightarrow> fault + (bool \<times> adc_state)" where
  "gain_written Gain_in g s =
     (case ADC_sync (s\<lparr>ADC := (ADC s)\<lparr>GAIN := g\<rparr>\<rparr>) of
        Inl e \<Rightarrow> Inl e
      | Inr s1 \<Rightarrow> Inr (True, s1\<lparr>ADC_Gain := Gain_in\<rparr>))"

definition ADC_setGain :: "8 word \<Rightarrow> adc_state \<Rightarrow> fault + (bool \<times> adc_state)" where
  "ADC_setGain Gain_in s =
     (if Gain_in = 1 then gain_written Gain_in ADC_INPUTCTRL_GAIN_1X_Val s
      else if Gain_in = 2 then gain_written Gain_in ADC_INPUTCTRL_GAIN_2X_Val s
      else if Gain_in = 4 then gain_written Gain_in ADC_INPUTCTRL_GAIN_4X_Val s
      else if Gain_in = 8 then gain_written Gain_in ADC_INPUTCTRL_GAIN_8X_Val s
      else if Gain_in = 16 then gain_written Gain_in ADC_INPUTCTRL_GAIN_16X_Val s
      else Inr (False, s))"

subsection \<open>ADC_Handler\<close>

text \<open>The conversion from the 12-bit reading to 16-bit two's complement.\<close>

definition sample_convert :: "16 word \<Rightarrow> 16 word" where
  "sample_convert sample = (if sample AND 0x0800 \<noteq> 0 then sample OR 0xf000 else sample)"

definition ADC_Handler :: "adc_state \<Rightarrow> fault + adc_state" where
  "ADC_Handler s =
     (let sample = sample_convert (RESULT (ADC s));
          s1 = s\<lparr>ADC := (ADC s)\<lparr>in_flight := False\<rparr>\<rparr>
      in case ADC_buffer_write (ADC_buffer s1) (iReadInput s1) (uint (iBuffer s1))
                (iBufferPos s1) sample of
           None \<Rightarrow> Inl OutOfBounds
         | Some buf \<Rightarrow> ADC_StartRead (s1\<lparr>ADC_buffer := buf\<rparr>))"

subsection \<open>The conversion-complete events of a round\<close>

text \<open>
  The ADC raises its result-ready interrupt once for each conversion started. The
  environment supplies the raw readings, one for each interrupt: while a conversion is in
  flight the next reading appears in RESULT and ADC_Handler runs; when none is in flight
  no further interrupt occurs.
\<close>

fun conversion_events :: "16 word list \<Rightarrow> adc_state \<Rightarrow> fault + adc_state" where
  "conversion_events [] s = Inr s"
| "conversion_events (r # rs) s =
     (if in_flight (ADC s)
      then (case ADC_Handler (s\<lparr>ADC := (ADC s)\<lparr>RESULT := r\<rparr>\<rparr>) of
              Inl e \<Rightarrow> Inl e
            | Inr s' \<Rightarrow> conversion_events rs s')
      else Inr s)"

section \<open>The timer of ctrlTimer.cpp\<close>

text \<open>
  The registers of the 16-bit timer/counter \<open>TC\<close> the code touches: the counter, the
  compare register CC[0], the compare-match interrupt flag, and the synchronisation bit.
\<close>

record tc_regs =
  COUNT :: "16 word"
  CC0 :: "16 word"
  INTFLAG_MC0 :: bool
  TC_SYNCBUSY :: "nat \<Rightarrow> bool"
  TC_STATUS_reads :: nat

text \<open>\<^verbatim>\<open>while (TC->STATUS.bit.SYNCBUSY == 1);\<close>\<close>

definition TC_sync :: "tc_regs \<Rightarrow> fault + tc_regs" where
  "TC_sync tc =
     (case wait_sync (TC_SYNCBUSY tc) (TC_STATUS_reads tc) of
        None \<Rightarrow> Inl Hang
      | Some k \<Rightarrow> Inr (tc\<lparr>TC_STATUS_reads := k\<rparr>))"

subsection \<open>TC3_Handler\<close>

text \<open>The two calls TC3_Handler makes on a compare match: the round-advance.\<close>

definition round_advance :: "adc_state \<Rightarrow> fault + adc_state" where
  "round_advance s = ADC_StartRead (ADC_UpdateBufferIdx s)"

definition TC3_Handler :: "tc_regs \<Rightarrow> adc_state \<Rightarrow> fault + (tc_regs \<times> adc_state)" where
  "TC3_Handler tc s =
     (if INTFLAG_MC0 tc
      then (case round_advance s of
              Inl e \<Rightarrow> Inl e
            | Inr s' \<Rightarrow> Inr (tc\<lparr>INTFLAG_MC0 := False\<rparr>, s'))
      else Inr (tc, s))"

text \<open>A full round: the round-advance, then the conversion-complete events it causes.\<close>

definition full_round :: "16 word list \<Rightarrow> adc_state \<Rightarrow> fault + adc_state" where
  "full_round raws s =
     (case round_advance s of
        Inl e \<Rightarrow> Inl e
      | Inr s1 \<Rightarrow> conversion_events raws s1)"

subsection \<open>setTimerFrequency\<close>

text \<open>The range of a 32-bit \<^verbatim>\<open>int\<close>, and C's division, which truncates towards zero.\<close>

definition int_range :: "int \<Rightarrow> bool" where
  "int_range x = (- (2 ^ 31) \<le> x \<and> x < 2 ^ 31)"

definition c_div :: "int \<Rightarrow> int \<Rightarrow> int" where
  "c_div a b = (if (a < 0) = (b < 0) then \<bar>a\<bar> div \<bar>b\<bar> else - (\<bar>a\<bar> div \<bar>b\<bar>))"

text \<open>
  Modelled from the spec: the function \<^verbatim>\<open>map(x, in_min, in_max, out_min, out_max)\<close> that
  setTimerFrequency calls belongs to the Arduino core, which is not among the sources.
  The spec (Rate Controller) says what the call computes: the phase is rescaled linearly,
  \<open>newPhase = round(oldPhase * compare_new / compare_old)\<close>. The definition is that linear
  rescaling of \<open>x\<close> from the range \<open>[in_min, in_max]\<close> to \<open>[out_min, out_max]\<close>, rounded to
  the nearest integer; the call has \<open>in_min = out_min = 0\<close>.
\<close>

definition map_range :: "int \<Rightarrow> int \<Rightarrow> int \<Rightarrow> int \<Rightarrow> int \<Rightarrow> int" where
  "map_range x in_min in_max out_min out_max =
     round (real_of_int ((x - in_min) * (out_max - out_min)) / real_of_int (in_max - in_min))
       + out_min"

text \<open>
  \<open>compareValue\<close> is a 32-bit \<^verbatim>\<open>int\<close>; the registers COUNT and CC[0] keep the low 16 bits
  of what is assigned to them.
\<close>

definition setTimerFrequency :: "int \<Rightarrow> tc_regs \<Rightarrow> fault + tc_regs" where
  "setTimerFrequency frequencyHz tc =
     (let d = TIMER_PRESCALER_DIV * frequencyHz in
      if \<not> int_range d then Inl IntOverflow
      else if d = 0 then Inl DivideByZero
      else
        (let compareValue = c_div CPU_HZ d - 1;
             tc1 = tc\<lparr>COUNT := word_of_int
                      (map_range (uint (COUNT tc)) 0 (uint (CC0 tc)) 0 compareValue)\<rparr>;
             tc2 = tc1\<lparr>CC0 := word_of_int compareValue\<rparr>
         in TC_sync tc2))"

section \<open>ADC_UdpTransmit\<close>

text \<open>The datagram handed to the transport: destination and the bytes written, in order.\<close>

record udp_packet =
  remote_ip :: "32 word"
  remote_port :: "16 word"
  payload :: "8 word list"

text \<open>
  The two bytes of a sample: \<^verbatim>\<open>(uint8_t)x\<close> and \<^verbatim>\<open>(uint8_t)(x >> 8)\<close>, where the
  \<^verbatim>\<open>int16_t\<close> \<open>x\<close> is promoted to \<^verbatim>\<open>int\<close> and shifted arithmetically.
\<close>

definition sample_lsb :: "16 word \<Rightarrow> 8 word" where
  "sample_lsb x = word_of_int (sint x)"

definition sample_msb :: "16 word \<Rightarrow> 8 word" where
  "sample_msb x = word_of_int (sint x div 2 ^ 8)"

text \<open>The inner loop, over the positions of one input, from \<open>iPos\<close> on.\<close>

function UdpTransmit_positions ::
  "adc_state \<Rightarrow> int \<Rightarrow> 8 word \<Rightarrow> int \<Rightarrow> 8 word list \<Rightarrow> fault + 8 word list" where
  "UdpTransmit_positions s iInput iBuffer_in iPos out =
     (if iPos < N_ADC_BUFFER_POS then
        (case ADC_buffer_read (ADC_buffer s) iInput (uint iBuffer_in) iPos of
           None \<Rightarrow> Inl OutOfBounds
         | Some x \<Rightarrow>
             UdpTransmit_positions s iInput iBuffer_in (iPos + 1)
               (out @ [sample_lsb x, sample_msb x]))
      else Inr out)"
  by pat_completeness auto
termination
  by (relation "measure (\<lambda>(s, iInput, iBuffer_in, iPos, out). nat (N_ADC_BUFFER_POS - iPos))")
    auto

text \<open>The outer loop, over the inputs, from \<open>iInput\<close> on.\<close>

function UdpTransmit_inputs ::
  "adc_state \<Rightarrow> 8 word \<Rightarrow> int \<Rightarrow> 8 word list \<Rightarrow> fault + 8 word list" where
  "UdpTransmit_inputs s iBuffer_in iInput out =
     (if iInput < N_ADC_INPUT then
        (if iInput < 0 then Inl UndefinedShift
         else if input_enabled (ADC_EnabledInputs s) iInput then
           (case UdpTransmit_positions s iInput iBuffer_in 0 out of
              Inl e \<Rightarrow> Inl e
            | Inr out' \<Rightarrow> UdpTransmit_inputs s iBuffer_in (iInput + 1) out')
         else UdpTransmit_inputs s iBuffer_in (iInput + 1) out)
      else Inr out)"
  by pat_completeness auto
termination
  by (relation "measure (\<lambda>(s, iBuffer_in, iInput, out). nat (N_ADC_INPUT - iInput))") auto

definition ADC_UdpTransmit ::
  "adc_state \<Rightarrow> 8 word \<Rightarrow> 32 word \<Rightarrow> 16 word \<Rightarrow> char \<Rightarrow> fault + udp_packet" where
  "ADC_UdpTransmit s iBuffer_in IP_in Port_in DataType =
     (case UdpTransmit_inputs s iBuffer_in 0
             [of_nat (of_char DataType), iBuffer_in, ADC_EnabledInputs s] of
        Inl e \<Rightarrow> Inl e
      | Inr out \<Rightarrow> Inr \<lparr>remote_ip = IP_in, remote_port = Port_in, payload = out\<rparr>)"

text \<open>The overload without a data type sends \<^verbatim>\<open>'D'\<close>.\<close>

definition ADC_UdpTransmit_D ::
  "adc_state \<Rightarrow> 8 word \<Rightarrow> 32 word \<Rightarrow> 16 word \<Rightarrow> fault + udp_packet" where
  "ADC_UdpTransmit_D s iBuffer_in IP_in Port_in =
     ADC_UdpTransmit s iBuffer_in IP_in Port_in CHR ''D''"

subsection \<open>Reading the wire format back\<close>

text \<open>
  The receiver's side of the wire format, as the spec lays it out: one byte of type tag,
  one byte of buffer index, one byte of channel mask, then for each channel in ascending
  order whose bit is set in the mask \<open>P\<close> samples of two bytes, least-significant first.
\<close>

definition decode_sample :: "8 word \<Rightarrow> 8 word \<Rightarrow> 16 word" where
  "decode_sample lo hi = ucast lo OR push_bit 8 (ucast hi)"

fun decode_samples :: "nat \<Rightarrow> 8 word list \<Rightarrow> (16 word list \<times> 8 word list) option" where
  "decode_samples 0 bs = Some ([], bs)"
| "decode_samples (Suc n) (lo # hi # bs) =
     (case decode_samples n bs of
        None \<Rightarrow> None
      | Some (xs, rest) \<Rightarrow> Some (decode_sample lo hi # xs, rest))"
| "decode_samples (Suc n) bs = None"

fun decode_channels ::
  "8 word \<Rightarrow> nat list \<Rightarrow> 8 word list \<Rightarrow> ((nat \<times> 16 word list) list \<times> 8 word list) option" where
  "decode_channels m [] bs = Some ([], bs)"
| "decode_channels m (c # cs) bs =
     (if bit m c then
        (case decode_samples 16 bs of
           None \<Rightarrow> None
         | Some (xs, rest) \<Rightarrow>
             (case decode_channels m cs rest of
                None \<Rightarrow> None
              | Some (chs, rest') \<Rightarrow> Some ((c, xs) # chs, rest')))
      else decode_channels m cs bs)"

definition decode_payload ::
  "8 word list \<Rightarrow> (8 word \<times> 8 word \<times> 8 word \<times> (nat \<times> 16 word list) list) option" where
  "decode_payload bs =
     (case bs of
        tag # idx # m # rest \<Rightarrow>
          (case decode_channels m [0..<5] rest of
             Some (chs, []) \<Rightarrow> Some (tag, idx, m, chs)
           | _ \<Rightarrow> None)
      | _ \<Rightarrow> None)"

section \<open>States used in the examples\<close>

definition adc_regs0 :: adc_regs where
  "adc_regs0 =
     \<lparr>MUXPOS = A1, GAIN = ADC_INPUTCTRL_GAIN_1X_Val, RESULT = 0, FLUSHES = 0, STARTS = [],
      in_flight = False, SYNCBUSY = busy_twice, STATUS_reads = 0\<rparr>"

text \<open>The state at start-up, as the initialisers of ctrlADC.cpp give it.\<close>

definition adc_state0 :: adc_state where
  "adc_state0 =
     \<lparr>ADC_EnabledInputs = 0, ADC_buffer = (\<lambda>i j k. 0), iBuffer = 0, iBufferPos = 0,
      iBufferTransmit = 0xff, iReadInput = - 1, ADC_Gain = 1, ADC = adc_regs0\<rparr>"

text \<open>Inputs 0 and 2 enabled, writing the last buffer of the ring.\<close>

definition adc_state1 :: adc_state where
  "adc_state1 = adc_state0\<lparr>ADC_EnabledInputs := 5, iBuffer := 63\<rparr>"

text \<open>Input 0 being read, its conversion finished with the reading 0x0FFF.\<close>

definition adc_state2 :: adc_state where
  "adc_state2 =
     adc_state1\<lparr>iReadInput := 0,
                 ADC := (ADC adc_state1)\<lparr>RESULT := 0x0FFF, in_flight := True\<rparr>\<rparr>"

text \<open>Inputs 0 and 2 enabled, with samples 0x0102 on input 0 and -2 on input 2.\<close>

definition adc_state3 :: adc_state where
  "adc_state3 = adc_state1\<lparr>ADC_buffer := (\<lambda>i j k. if i = 2 then 0xFFFE else 0x0102)\<rparr>"

definition tc_regs0 :: tc_regs where
  "tc_regs0 =
     \<lparr>COUNT = 100, CC0 = 467, INTFLAG_MC0 = False, TC_SYNCBUSY = busy_twice,
      TC_STATUS_reads = 0\<rparr>"

section \<open>The synchronisation wait returns on a responsive peripheral\<close>

lemma wait_sync_clear: "\<not> busy (k + d) \<Longrightarrow> \<exists>k'. wait_sync busy k = Some k'"
proof (induction d arbitrary: k)
  case 0
  then show ?case by (subst wait_sync.simps) simp
next
  case (Suc d)
  from Suc.prems have "\<not> busy (Suc k + d)" by simp
  from Suc.IH [OF this] obtain k' where "wait_sync busy (Suc k) = Some k'" by blast
  then show ?case by (subst wait_sync.simps) simp
qed

lemma wait_sync_responsive:
  assumes "responsive busy"
  shows "\<exists>k'. wait_sync busy k = Some k'"
proof -
  from assms obtain j where "k \<le> j" "\<not> busy j" unfolding responsive_def by blast
  then have "\<not> busy (k + (j - k))" by simp
  then show ?thesis by (rule wait_sync_clear)
qed

lemma wait_sync_stuck:
  assumes "wait_sync busy k = Some y"
  shows "\<exists>j. \<not> busy j"
  by (rule wait_sync.raw_induct [where P = "\<lambda>b k y. \<exists>j. \<not> b j", OF _ assms])
    (auto split: if_splits)

lemma wait_sync_always_busy: "wait_sync always_busy k = None"
proof (cases "wait_sync always_busy k")
  case (Some y)
  from wait_sync_stuck [OF this] show ?thesis by (simp add: always_busy_def)
qed simp

lemma responsive_busy_twice: "responsive busy_twice"
  unfolding responsive_def busy_twice_def
proof
  fix k :: nat
  have "k \<le> 3 * k + 2 \<and> \<not> (3 * k + 2) mod 3 \<noteq> 2" by presburger
  then show "\<exists>j. k \<le> j \<and> \<not> j mod 3 \<noteq> 2" by blast
qed

lemma ADC_sync_responsive:
  assumes "responsive (SYNCBUSY (ADC s))"
  shows "\<exists>k. ADC_sync s = Inr (s\<lparr>ADC := (ADC s)\<lparr>STATUS_reads := k\<rparr>\<rparr>)"
proof -
  from wait_sync_responsive [OF assms] obtain k
    where "wait_sync (SYNCBUSY (ADC s)) (STATUS_reads (ADC s)) = Some k" by blast
  then have "ADC_sync s = Inr (s\<lparr>ADC := (ADC s)\<lparr>STATUS_reads := k\<rparr>\<rparr>)"
    by (simp add: ADC_sync_def)
  then show ?thesis by (rule exI)
qed

section \<open>The sample conversion\<close>

lemma high_nibble: "(0xf000 :: 16 word) = push_bit 12 (mask 4)"
  by (simp add: mask_eq_exp_minus_1)

lemma sample_convert_bits:
  "bit (sample_convert w) n = (bit w n \<or> (bit w 11 \<and> 12 \<le> n \<and> n < 16))"
proof -
  have a: "(w AND 0x0800 \<noteq> 0) = bit w 11"
    using and_exp_eq_0_iff_not_bit [of w 11] by simp
  show ?thesis
    unfolding sample_convert_def a high_nibble
    by (auto simp add: bit_or_iff bit_push_bit_iff bit_mask_iff)
qed

lemma twelve_bit_high:
  fixes w :: "16 word"
  assumes "w < 0x1000" and "12 \<le> n"
  shows "\<not> bit w n"
proof -
  from assms(1) have "w < 2 ^ 12" by simp
  then have "w AND mask 12 = w" by (rule less_mask_eq)
  then have "take_bit 12 w = w" by (simp only: take_bit_eq_mask)
  then have "bit w n = bit (take_bit 12 w) n" by simp
  with assms(2) show ?thesis by (simp add: bit_take_bit_iff)
qed

lemma sint_sample_convert:
  assumes "w < 0x1000"
  shows "sint (sample_convert w) = uint w - (if bit w 11 then 4096 else 0)"
proof -
  have "sint (sample_convert w) = signed_take_bit 11 (uint w)"
  proof (rule bit_eqI)
    fix n
    show "bit (sint (sample_convert w)) n = bit (signed_take_bit 11 (uint w)) n"
    proof -
      consider "n < 11" | "n = 11" | "12 \<le> n" by linarith
      then show ?thesis
        using twelve_bit_high [OF assms, of n] twelve_bit_high [OF assms, of 15]
        by cases
          (auto simp add: bit_sint_iff sample_convert_bits bit_signed_take_bit_iff bit_uint_iff
             min_def)
    qed
  qed
  also have "\<dots> = take_bit 12 (uint w) - 4096 * of_bool (bit w 11)"
    by (simp add: signed_take_bit_eq_take_bit_minus bit_uint_iff)
  also have "take_bit 12 (uint w) = uint w"
    using assms by (simp add: take_bit_int_eq_self_iff word_less_def)
  finally show ?thesis by simp
qed

text \<open>
  C3. The conversion in ADC_Handler tests bit 11 of the raw reading: when it is set, bits
  12 to 15 of the sample are set and the low twelve bits are kept; when it is clear, the
  sample is the reading. Read as a signed 16-bit value, the sample of a 12-bit reading is
  its two's-complement value (the reading less 4096 when bit 11 is set). In particular
  0x0FFF gives -1, 0x07FF gives 2047 and 0 gives 0.
\<close>

theorem sample_convert_sign_extends:
  "sample_convert raw = (if bit raw 11 then raw OR 0xf000 else raw)
   \<and> (\<forall>n. bit (sample_convert raw) n = (bit raw n \<or> (bit raw 11 \<and> 12 \<le> n \<and> n < 16)))
   \<and> (raw < 0x1000 \<longrightarrow>
        sint (sample_convert raw) = uint raw - (if bit raw 11 then 4096 else 0))
   \<and> sint (sample_convert 0x0FFF) = - 1
   \<and> sint (sample_convert 0x07FF) = 2047
   \<and> sint (sample_convert 0x0000) = 0"
proof -
  have "(raw AND 0x0800 \<noteq> 0) = bit raw 11"
    using and_exp_eq_0_iff_not_bit [of raw 11] by simp
  then have "sample_convert raw = (if bit raw 11 then raw OR 0xf000 else raw)"
    by (simp add: sample_convert_def)
  moreover have "sint (sample_convert 0x0FFF) = - 1" by (simp add: sample_convert_def)
  moreover have "sint (sample_convert 0x07FF) = 2047" by (simp add: sample_convert_def)
  moreover have "sint (sample_convert 0x0000) = 0" by (simp add: sample_convert_def)
  ultimately show ?thesis
    using sample_convert_bits sint_sample_convert by blast
qed

theorem sample_convert_sign_extends_witness:
  "(0x0FFF :: 16 word) < 0x1000 \<and> bit (0x0FFF :: 16 word) 11
   \<and> sint (sample_convert 0x0FFF) = 4095 - 4096"
proof -
  have a: "(0x0FFF :: 16 word) < 0x1000" by simp
  have b: "bit (0x0FFF :: 16 word) 11" by simp
  from sample_convert_sign_extends [of "0x0FFF"] a b show ?thesis by simp
qed

section \<open>The buffer indexes\<close>

lemma ADC_UpdateBufferIdx_partial:
  "iBufferPos s = 0 \<Longrightarrow> ADC_EnabledInputs s \<noteq> 0 \<Longrightarrow> n < 15 \<Longrightarrow>
   (ADC_UpdateBufferIdx ^^ Suc n) s = s\<lparr>iBufferPos := int n + 1, iReadInput := - 1\<rparr>"
  by (induction n) (simp_all add: ADC_UpdateBufferIdx_def N_ADC_BUFFER_POS_def Let_def)

lemma uint_next_buffer:
  fixes w :: "8 word"
  shows "uint (word_of_int (uint (w + 1) mod 64) :: 8 word) = (uint w + 1) mod 64"
proof -
  have "uint (w + 1) mod 64 = (uint w + 1) mod 64"
    by (simp add: uint_word_ariths mod_mod_cancel)
  moreover have "0 \<le> (uint w + 1) mod 64" "(uint w + 1) mod 64 < 2 ^ 8"
    by (simp_all add: order_less_trans [OF pos_mod_bound])
  ultimately show ?thesis
    by (simp add: uint_word_of_int take_bit_int_eq_self)
qed

text \<open>
  C7. When no input is enabled ADC_UpdateBufferIdx changes nothing, however often it is
  called: the state after any number of calls is the state before (buffer index, position
  index, reading input and transmit marker included).
\<close>

theorem ADC_UpdateBufferIdx_no_input:
  "ADC_EnabledInputs s = 0 \<Longrightarrow> (ADC_UpdateBufferIdx ^^ n) s = s"
  by (induction n) (simp_all add: ADC_UpdateBufferIdx_def)

theorem ADC_UpdateBufferIdx_no_input_witness:
  "ADC_EnabledInputs adc_state0 = 0 \<and> (ADC_UpdateBufferIdx ^^ 3) adc_state0 = adc_state0"
proof -
  have a: "ADC_EnabledInputs adc_state0 = 0" by (simp add: adc_state0_def)
  from a ADC_UpdateBufferIdx_no_input [OF a, of 3] show ?thesis by simp
qed

text \<open>
  C2. From a state with position index 0 and some input enabled, the first fifteen calls
  of ADC_UpdateBufferIdx only count the position up (buffer index and transmit marker
  stay); the sixteenth call advances the buffer index by one modulo 64, puts the position
  index back to 0 and sets the transmit marker to the buffer index that was active before
  that call, whatever the marker held.
\<close>

theorem ADC_UpdateBufferIdx_frame:
  assumes "iBufferPos s = 0" and "ADC_EnabledInputs s \<noteq> 0"
  shows "(\<forall>n<16. iBufferPos ((ADC_UpdateBufferIdx ^^ n) s) = int n
                \<and> iBuffer ((ADC_UpdateBufferIdx ^^ n) s) = iBuffer s
                \<and> iBufferTransmit ((ADC_UpdateBufferIdx ^^ n) s) = iBufferTransmit s)
       \<and> uint (iBuffer ((ADC_UpdateBufferIdx ^^ 16) s)) = (uint (iBuffer s) + 1) mod N_ADC_BUFFERS
       \<and> iBufferPos ((ADC_UpdateBufferIdx ^^ 16) s) = 0
       \<and> iBufferTransmit ((ADC_UpdateBufferIdx ^^ 16) s) = iBuffer ((ADC_UpdateBufferIdx ^^ 15) s)"
proof -
  have part: "(ADC_UpdateBufferIdx ^^ n) s =
      (if n = 0 then s else s\<lparr>iBufferPos := int n, iReadInput := - 1\<rparr>)" if "n < 16" for n
  proof (cases n)
    case 0
    then show ?thesis by simp
  next
    case (Suc m)
    with that have "m < 15" by simp
    from ADC_UpdateBufferIdx_partial [OF assms this] Suc show ?thesis by simp
  qed
  have s15: "(ADC_UpdateBufferIdx ^^ 15) s = s\<lparr>iBufferPos := 15, iReadInput := - 1\<rparr>"
    using part [of 15] by simp
  have "(ADC_UpdateBufferIdx ^^ 16) s = ADC_UpdateBufferIdx ((ADC_UpdateBufferIdx ^^ 15) s)"
    by (simp add: numeral_eq_Suc)
  then have s16: "(ADC_UpdateBufferIdx ^^ 16) s =
      s\<lparr>iBufferTransmit := iBuffer s,
        iBuffer := word_of_int (uint (iBuffer s + 1) mod N_ADC_BUFFERS), iBufferPos := 0,
        iReadInput := - 1\<rparr>"
    using assms(2) by (simp add: s15 ADC_UpdateBufferIdx_def N_ADC_BUFFER_POS_def Let_def)
  show ?thesis
    using part assms(1) by (simp add: s15 s16 uint_next_buffer N_ADC_BUFFERS_def)
qed

theorem ADC_UpdateBufferIdx_frame_witness:
  "iBufferPos adc_state1 = 0 \<and> ADC_EnabledInputs adc_state1 \<noteq> 0
   \<and> iBuffer adc_state1 = 63
   \<and> uint (iBuffer ((ADC_UpdateBufferIdx ^^ 16) adc_state1)) = 0
   \<and> iBufferPos ((ADC_UpdateBufferIdx ^^ 16) adc_state1) = 0
   \<and> iBufferTransmit ((ADC_UpdateBufferIdx ^^ 16) adc_state1) = 63"
proof -
  have a: "iBufferPos adc_state1 = 0" by (simp add: adc_state1_def adc_state0_def)
  have b: "ADC_EnabledInputs adc_state1 \<noteq> 0" by (simp add: adc_state1_def adc_state0_def)
  have c: "iBuffer adc_state1 = 63" by (simp add: adc_state1_def adc_state0_def)
  from ADC_UpdateBufferIdx_frame [OF a b] a b c show ?thesis
    by (simp add: N_ADC_BUFFERS_def)
qed

section \<open>The gain\<close>

lemma gain_written_responsive:
  assumes "responsive (SYNCBUSY (ADC s))"
  shows "\<exists>k. gain_written Gain_in g s =
           Inr (True, s\<lparr>ADC_Gain := Gain_in, ADC := (ADC s)\<lparr>GAIN := g, STATUS_reads := k\<rparr>\<rparr>)"
proof -
  from assms have "responsive (SYNCBUSY (ADC (s\<lparr>ADC := (ADC s)\<lparr>GAIN := g\<rparr>\<rparr>)))" by simp
  from ADC_sync_responsive [OF this] obtain k where
    "ADC_sync (s\<lparr>ADC := (ADC s)\<lparr>GAIN := g\<rparr>\<rparr>) =
       Inr (s\<lparr>ADC := (ADC s)\<lparr>GAIN := g, STATUS_reads := k\<rparr>\<rparr>)"
    by auto
  then have "gain_written Gain_in g s =
           Inr (True, s\<lparr>ADC_Gain := Gain_in, ADC := (ADC s)\<lparr>GAIN := g, STATUS_reads := k\<rparr>\<rparr>)"
    by (simp add: gain_written_def)
  then show ?thesis by (rule exI)
qed

lemma ADC_setGain_hangs:
  "SYNCBUSY (ADC s) = always_busy \<Longrightarrow> ADC_setGain 8 s = Inl Hang"
  by (simp add: ADC_setGain_def gain_written_def ADC_sync_def wait_sync_always_busy)

text \<open>
  C6. ADC_setGain accepts exactly the gains 1, 2, 4, 8 and 16. Any other value returns
  \<open>false\<close> and leaves the whole state, recorded gain and GAIN register included, as it
  was. An accepted value is written to the GAIN register in its encoding and, once the
  peripheral has synchronised, recorded in \<open>ADC_Gain\<close>, and the call returns \<open>true\<close>. In
  particular a gain of 3 is refused and a gain of 8 is recorded.
\<close>

theorem ADC_setGain_validates:
  "(Gain_in \<notin> {1, 2, 4, 8, 16} \<longrightarrow> ADC_setGain Gain_in s = Inr (False, s))
   \<and> (Gain_in \<in> {1, 2, 4, 8, 16} \<and> responsive (SYNCBUSY (ADC s)) \<longrightarrow>
        (\<exists>k. ADC_setGain Gain_in s =
           Inr (True, s\<lparr>ADC_Gain := Gain_in,
                          ADC := (ADC s)\<lparr>GAIN :=
                                   (if Gain_in = 1 then ADC_INPUTCTRL_GAIN_1X_Val
                                    else if Gain_in = 2 then ADC_INPUTCTRL_GAIN_2X_Val
                                    else if Gain_in = 4 then ADC_INPUTCTRL_GAIN_4X_Val
                                    else if Gain_in = 8 then ADC_INPUTCTRL_GAIN_8X_Val
                                    else ADC_INPUTCTRL_GAIN_16X_Val),
                                  STATUS_reads := k\<rparr>\<rparr>)))
   \<and> ADC_setGain 3 s = Inr (False, s)
   \<and> (responsive (SYNCBUSY (ADC s)) \<longrightarrow>
        (\<exists>s'. ADC_setGain 8 s = Inr (True, s') \<and> ADC_Gain s' = 8
              \<and> GAIN (ADC s') = ADC_INPUTCTRL_GAIN_8X_Val))"
proof (intro conjI impI)
  assume "Gain_in \<notin> {1, 2, 4, 8, 16}"
  then show "ADC_setGain Gain_in s = Inr (False, s)" by (simp add: ADC_setGain_def)
next
  assume a: "Gain_in \<in> {1, 2, 4, 8, 16} \<and> responsive (SYNCBUSY (ADC s))"
  then have r: "responsive (SYNCBUSY (ADC s))" by simp
  from a show "\<exists>k. ADC_setGain Gain_in s =
           Inr (True, s\<lparr>ADC_Gain := Gain_in,
                          ADC := (ADC s)\<lparr>GAIN :=
                                   (if Gain_in = 1 then ADC_INPUTCTRL_GAIN_1X_Val
                                    else if Gain_in = 2 then ADC_INPUTCTRL_GAIN_2X_Val
                                    else if Gain_in = 4 then ADC_INPUTCTRL_GAIN_4X_Val
                                    else if Gain_in = 8 then ADC_INPUTCTRL_GAIN_8X_Val
                                    else ADC_INPUTCTRL_GAIN_16X_Val),
                                  STATUS_reads := k\<rparr>\<rparr>)"
    using gain_written_responsive [OF r, of Gain_in]
    by (auto simp add: ADC_setGain_def)
next
  show "ADC_setGain 3 s = Inr (False, s)" by (simp add: ADC_setGain_def)
next
  assume r: "responsive (SYNCBUSY (ADC s))"
  from gain_written_responsive [OF r, of 8 ADC_INPUTCTRL_GAIN_8X_Val]
  show "\<exists>s'. ADC_setGain 8 s = Inr (True, s') \<and> ADC_Gain s' = 8
              \<and> GAIN (ADC s') = ADC_INPUTCTRL_GAIN_8X_Val"
    by (auto simp add: ADC_setGain_def)
qed

theorem ADC_setGain_validates_witness:
  "(3 :: 8 word) \<notin> {1, 2, 4, 8, 16} \<and> ADC_setGain 3 adc_state0 = Inr (False, adc_state0)
   \<and> (8 :: 8 word) \<in> {1, 2, 4, 8, 16} \<and> responsive (SYNCBUSY (ADC adc_state0))
   \<and> (\<exists>k. ADC_setGain 8 adc_state0 =
           Inr (True, adc_state0\<lparr>ADC_Gain := 8,
                  ADC := (ADC adc_state0)\<lparr>GAIN := ADC_INPUTCTRL_GAIN_8X_Val,
                                            STATUS_reads := k\<rparr>\<rparr>))"
proof -
  have r: "responsive (SYNCBUSY (ADC adc_state0))"
    by (simp add: adc_state0_def adc_regs0_def responsive_busy_twice)
  from r ADC_setGain_validates [of 3 adc_state0] ADC_setGain_validates [of 8 adc_state0]
  show ?thesis by simp
qed

section \<open>The channel scheduler\<close>

lemma input_enabled_bit:
  "0 \<le> i \<Longrightarrow> input_enabled m i = bit m (nat i)"
  unfolding input_enabled_def
  by (auto simp add: and_exp_eq_0_iff_not_bit bit_ucast_iff push_bit_of_1 dest: bit_imp_le_length)

lemma start_conversion_responsive:
  assumes "responsive (SYNCBUSY (ADC s))"
  shows "\<exists>k. start_conversion c s =
           Inr (s\<lparr>iReadInput := c,
                  ADC := (ADC s)\<lparr>MUXPOS := regInputs ! nat c,
                                  FLUSHES := Suc (FLUSHES (ADC s)),
                                  STARTS := STARTS (ADC s) @ [regInputs ! nat c],
                                  in_flight := True,
                                  STATUS_reads := k\<rparr>\<rparr>)"
proof -
  let ?s0 = "s\<lparr>ADC := (ADC s)\<lparr>MUXPOS := regInputs ! nat c\<rparr>\<rparr>"
  from assms have "responsive (SYNCBUSY (ADC ?s0))" by simp
  from ADC_sync_responsive [OF this] obtain k1 where
    1: "ADC_sync ?s0 = Inr (?s0\<lparr>ADC := (ADC ?s0)\<lparr>STATUS_reads := k1\<rparr>\<rparr>)" by blast
  let ?s1 = "?s0\<lparr>ADC := (ADC ?s0)\<lparr>STATUS_reads := k1\<rparr>\<rparr>"
  let ?s1' = "?s1\<lparr>ADC := (ADC ?s1)\<lparr>FLUSHES := Suc (FLUSHES (ADC ?s1))\<rparr>\<rparr>"
  from assms have "responsive (SYNCBUSY (ADC ?s1'))" by simp
  from ADC_sync_responsive [OF this] obtain k2 where
    2: "ADC_sync ?s1' = Inr (?s1'\<lparr>ADC := (ADC ?s1')\<lparr>STATUS_reads := k2\<rparr>\<rparr>)" by blast
  let ?s2 = "?s1'\<lparr>ADC := (ADC ?s1')\<lparr>STATUS_reads := k2\<rparr>\<rparr>"
  let ?s2' = "?s2\<lparr>ADC := (ADC ?s2)\<lparr>STARTS := STARTS (ADC ?s2) @ [MUXPOS (ADC ?s2)],
                                           in_flight := True\<rparr>\<rparr>"
  from assms have "responsive (SYNCBUSY (ADC ?s2'))" by simp
  from ADC_sync_responsive [OF this] obtain k3 where
    3: "ADC_sync ?s2' = Inr (?s2'\<lparr>ADC := (ADC ?s2')\<lparr>STATUS_reads := k3\<rparr>\<rparr>)" by blast
  have "start_conversion c s =
           Inr (s\<lparr>iReadInput := c,
                  ADC := (ADC s)\<lparr>MUXPOS := regInputs ! nat c,
                                  FLUSHES := Suc (FLUSHES (ADC s)),
                                  STARTS := STARTS (ADC s) @ [regInputs ! nat c],
                                  in_flight := True,
                                  STATUS_reads := k3\<rparr>\<rparr>)"
    unfolding start_conversion_def 1 2 3 sum.case by simp 
  then show ?thesis by (rule exI)
qed

declare ADC_StartRead_loop.simps [simp del]

lemma ADC_StartRead_loop_first:
  assumes "0 \<le> i" and "i \<le> c" and "c < N_ADC_INPUT"
    and "bit (ADC_EnabledInputs s) (nat c)"
    and "\<forall>j. i \<le> j \<and> j < c \<longrightarrow> \<not> bit (ADC_EnabledInputs s) (nat j)"
  shows "ADC_StartRead_loop i s = start_conversion c s"
  using assms
proof (induction i s rule: ADC_StartRead_loop.induct)
  case (1 iInput s)
  show ?case
  proof (cases "iInput = c")
    case True
    with "1.prems" show ?thesis
      by (subst ADC_StartRead_loop.simps) (simp add: input_enabled_bit)
  next
    case False
    with "1.prems" have lt: "iInput < c" by simp
    with "1.prems" have off: "\<not> input_enabled (ADC_EnabledInputs s) iInput"
      by (simp add: input_enabled_bit)
    from lt "1.prems" have "ADC_StartRead_loop (iInput + 1) s = start_conversion c s"
      by (intro "1.IH") (auto simp add: off)
    with lt "1.prems" off show ?thesis
      by (subst ADC_StartRead_loop.simps) simp
  qed
qed

lemma ADC_StartRead_loop_none:
  assumes "0 \<le> i"
    and "\<forall>j. i \<le> j \<and> j < N_ADC_INPUT \<longrightarrow> \<not> bit (ADC_EnabledInputs s) (nat j)"
  shows "ADC_StartRead_loop i s = Inr s"
  using assms
proof (induction i s rule: ADC_StartRead_loop.induct)
  case (1 iInput s)
  show ?case
  proof (cases "iInput < N_ADC_INPUT")
    case True
    with "1.prems" have off: "\<not> input_enabled (ADC_EnabledInputs s) iInput"
      by (simp add: input_enabled_bit)
    from True "1.prems" have "ADC_StartRead_loop (iInput + 1) s = Inr s"
      by (intro "1.IH") (auto simp add: off)
    with True "1.prems" off show ?thesis
      by (subst ADC_StartRead_loop.simps) simp
  next
    case False
    then show ?thesis by (subst ADC_StartRead_loop.simps) simp
  qed
qed

text \<open>
  C4. Whatever input is being read (\<open>iReadInput\<close> is -1 for none, or an index),
  ADC_StartRead looks only at the inputs above it, in ascending order and without
  wrapping, up to input 4. When one of them is enabled it selects the first such input:
  on a responsive peripheral it writes that input's pin to MUXPOS, flushes, issues exactly
  one start request and records the input in \<open>iReadInput\<close>, leaving everything else as it
  was. When none is enabled it returns the state unchanged, with no request. With no input
  enabled at all that is always the case.
\<close>

theorem ADC_StartRead_selects:
  assumes "- 1 \<le> iReadInput s"
  shows
    "(if \<exists>i. iReadInput s < i \<and> i < N_ADC_INPUT \<and> bit (ADC_EnabledInputs s) (nat i)
      then responsive (SYNCBUSY (ADC s)) \<longrightarrow>
        (\<exists>c k. ADC_StartRead s =
             Inr (s\<lparr>iReadInput := c,
                    ADC := (ADC s)\<lparr>MUXPOS := regInputs ! nat c,
                                    FLUSHES := Suc (FLUSHES (ADC s)),
                                    STARTS := STARTS (ADC s) @ [regInputs ! nat c],
                                    in_flight := True,
                                    STATUS_reads := k\<rparr>\<rparr>)
           \<and> iReadInput s < c \<and> c < N_ADC_INPUT \<and> bit (ADC_EnabledInputs s) (nat c)
           \<and> (\<forall>j. iReadInput s < j \<and> j < c \<longrightarrow> \<not> bit (ADC_EnabledInputs s) (nat j)))
      else ADC_StartRead s = Inr s)
     \<and> (ADC_EnabledInputs s = 0 \<longrightarrow> ADC_StartRead s = Inr s)"
proof (intro conjI impI)
  let ?P = "\<lambda>i. iReadInput s < i \<and> i < N_ADC_INPUT \<and> bit (ADC_EnabledInputs s) (nat i)"
  show "if \<exists>i. ?P i
      then responsive (SYNCBUSY (ADC s)) \<longrightarrow>
        (\<exists>c k. ADC_StartRead s =
             Inr (s\<lparr>iReadInput := c,
                    ADC := (ADC s)\<lparr>MUXPOS := regInputs ! nat c,
                                    FLUSHES := Suc (FLUSHES (ADC s)),
                                    STARTS := STARTS (ADC s) @ [regInputs ! nat c],
                                    in_flight := True,
                                    STATUS_reads := k\<rparr>\<rparr>)
           \<and> iReadInput s < c \<and> c < N_ADC_INPUT \<and> bit (ADC_EnabledInputs s) (nat c)
           \<and> (\<forall>j. iReadInput s < j \<and> j < c \<longrightarrow> \<not> bit (ADC_EnabledInputs s) (nat j)))
      else ADC_StartRead s = Inr s"
  proof (cases "\<exists>i. ?P i")
    case True
    then obtain i0 where "?P i0" by blast
    from ex_has_least_nat [of ?P i0 "\<lambda>i. nat (i - iReadInput s)", OF this]
    obtain c where c: "?P c" and least: "\<forall>y. ?P y \<longrightarrow> nat (c - iReadInput s) \<le> nat (y - iReadInput s)"
      by blast
    have first: "\<forall>j. iReadInput s + 1 \<le> j \<and> j < c \<longrightarrow> \<not> bit (ADC_EnabledInputs s) (nat j)"
    proof (intro allI impI notI)
      fix j assume j: "iReadInput s + 1 \<le> j \<and> j < c" and b: "bit (ADC_EnabledInputs s) (nat j)"
      with c have "?P j" by simp
      with least have "nat (c - iReadInput s) \<le> nat (j - iReadInput s)" by blast
      with j show False by arith
    qed
    from assms c have loop: "ADC_StartRead s = start_conversion c s"
      unfolding ADC_StartRead_def
      by (intro ADC_StartRead_loop_first first) auto
    show ?thesis
    proof (simp only: True if_True, intro impI)
      assume "responsive (SYNCBUSY (ADC s))"
      from start_conversion_responsive [OF this, of c] loop c first
      show "\<exists>c k. ADC_StartRead s =
             Inr (s\<lparr>iReadInput := c,
                    ADC := (ADC s)\<lparr>MUXPOS := regInputs ! nat c,
                                    FLUSHES := Suc (FLUSHES (ADC s)),
                                    STARTS := STARTS (ADC s) @ [regInputs ! nat c],
                                    in_flight := True,
                                    STATUS_reads := k\<rparr>\<rparr>)
           \<and> iReadInput s < c \<and> c < N_ADC_INPUT \<and> bit (ADC_EnabledInputs s) (nat c)
           \<and> (\<forall>j. iReadInput s < j \<and> j < c \<longrightarrow> \<not> bit (ADC_EnabledInputs s) (nat j))"
        by (metis zless_imp_add1_zle)
    qed
  next
    case False
    with assms have none: "ADC_StartRead s = Inr s"
      unfolding ADC_StartRead_def
      by (intro ADC_StartRead_loop_none) auto
    show ?thesis unfolding if_not_P [OF False] by (rule none)
  qed
next
  assume "ADC_EnabledInputs s = 0"
  with assms show "ADC_StartRead s = Inr s"
    unfolding ADC_StartRead_def
    by (intro ADC_StartRead_loop_none) auto
qed

lemma responsive_adc_state1: "responsive (SYNCBUSY (ADC adc_state1))"
  by (simp add: adc_state1_def adc_state0_def adc_regs0_def responsive_busy_twice)

theorem ADC_StartRead_selects_witness:
  "- 1 \<le> iReadInput adc_state1
   \<and> bit (ADC_EnabledInputs adc_state1) (nat 0)
   \<and> responsive (SYNCBUSY (ADC adc_state1))
   \<and> (\<exists>k. ADC_StartRead adc_state1 =
          Inr (adc_state1\<lparr>iReadInput := 0,
                 ADC := (ADC adc_state1)\<lparr>MUXPOS := A1, FLUSHES := 1, STARTS := [A1],
                                          in_flight := True, STATUS_reads := k\<rparr>\<rparr>))
   \<and> ADC_EnabledInputs adc_state0 = 0
   \<and> ADC_StartRead adc_state0 = Inr adc_state0"
proof -
  have a: "- 1 \<le> iReadInput adc_state1" "iReadInput adc_state1 = - 1"
    by (simp_all add: adc_state1_def adc_state0_def)
  have b: "bit (ADC_EnabledInputs adc_state1) (nat 0)"
    by (simp add: adc_state1_def adc_state0_def)
  have e: "\<exists>i. iReadInput adc_state1 < i \<and> i < N_ADC_INPUT
             \<and> bit (ADC_EnabledInputs adc_state1) (nat i)"
    using a b by (intro exI [of _ 0]) (simp add: N_ADC_INPUT_def)
  have r: "responsive (SYNCBUSY (ADC adc_state1))" by (rule responsive_adc_state1)
  from ADC_StartRead_selects [OF a(1)] e r obtain c k where
    run: "ADC_StartRead adc_state1 =
             Inr (adc_state1\<lparr>iReadInput := c,
                    ADC := (ADC adc_state1)\<lparr>MUXPOS := regInputs ! nat c,
                                    FLUSHES := Suc (FLUSHES (ADC adc_state1)),
                                    STARTS := STARTS (ADC adc_state1) @ [regInputs ! nat c],
                                    in_flight := True,
                                    STATUS_reads := k\<rparr>\<rparr>)"
    and c: "iReadInput adc_state1 < c"
    and first: "\<forall>j. iReadInput adc_state1 < j \<and> j < c
                  \<longrightarrow> \<not> bit (ADC_EnabledInputs adc_state1) (nat j)"
    by auto
  from first [rule_format, of 0] b a(2) have "\<not> 0 < c" by auto
  with c a(2) have "c = 0" by simp
  with run have run0: "\<exists>k. ADC_StartRead adc_state1 =
          Inr (adc_state1\<lparr>iReadInput := 0,
                 ADC := (ADC adc_state1)\<lparr>MUXPOS := A1, FLUSHES := 1, STARTS := [A1],
                                          in_flight := True, STATUS_reads := k\<rparr>\<rparr>)"
    by (simp add: regInputs_def adc_state1_def adc_state0_def adc_regs0_def)
  have z: "ADC_EnabledInputs adc_state0 = 0" "- 1 \<le> iReadInput adc_state0"
    by (simp_all add: adc_state0_def)
  from ADC_StartRead_selects [OF z(2)] z(1) have "ADC_StartRead adc_state0 = Inr adc_state0"
    by blast
  with a b r run0 z show ?thesis by blast
qed

lemma ADC_sync_fault: "ADC_sync s = Inl e \<Longrightarrow> e = Hang"
  by (auto simp add: ADC_sync_def split: option.splits)

lemma start_conversion_fault: "start_conversion c s = Inl e \<Longrightarrow> e = Hang"
  by (auto simp add: start_conversion_def split: sum.splits dest: ADC_sync_fault)

lemma ADC_StartRead_loop_fault:
  "0 \<le> i \<Longrightarrow> ADC_StartRead_loop i s = Inl e \<Longrightarrow> e = Hang"
proof (induction i s rule: ADC_StartRead_loop.induct)
  case (1 iInput s)
  from "1.prems"(2) show ?case
    apply (subst (asm) ADC_StartRead_loop.simps)
    using "1.prems"(1) "1.IH"
    by (auto split: if_splits dest: start_conversion_fault)
qed

section \<open>The conversion-complete handler\<close>

lemma ADC_Handler_stores:
  assumes "in_bounds (iReadInput s) (uint (iBuffer s)) (iBufferPos s)"
  shows "ADC_Handler s =
     ADC_StartRead
       (s\<lparr>ADC := (ADC s)\<lparr>in_flight := False\<rparr>,
          ADC_buffer := (\<lambda>i' j' k'.
             if i' = iReadInput s \<and> j' = uint (iBuffer s) \<and> k' = iBufferPos s
             then sample_convert (RESULT (ADC s)) else ADC_buffer s i' j' k')\<rparr>)"
  using assms by (simp add: ADC_Handler_def ADC_buffer_write_def Let_def cong: if_cong)

lemma ADC_StartRead_returns:
  assumes "- 1 \<le> iReadInput s" and "responsive (SYNCBUSY (ADC s))"
  shows "\<exists>s'. ADC_StartRead s = Inr s' \<and> ADC_buffer s' = ADC_buffer s"
proof (cases "\<exists>i. iReadInput s + 1 \<le> i \<and> i < N_ADC_INPUT \<and> bit (ADC_EnabledInputs s) (nat i)")
  case True
  let ?P = "\<lambda>i. iReadInput s + 1 \<le> i \<and> i < N_ADC_INPUT \<and> bit (ADC_EnabledInputs s) (nat i)"
  from True obtain i0 where "?P i0" by blast
  from ex_has_least_nat [of ?P i0 "\<lambda>i. nat (i - iReadInput s)", OF this]
  obtain c where c: "?P c"
    and least: "\<forall>y. ?P y \<longrightarrow> nat (c - iReadInput s) \<le> nat (y - iReadInput s)"
    by blast
  have first: "\<forall>j. iReadInput s + 1 \<le> j \<and> j < c \<longrightarrow> \<not> bit (ADC_EnabledInputs s) (nat j)"
  proof (intro allI impI notI)
    fix j assume j: "iReadInput s + 1 \<le> j \<and> j < c" and b: "bit (ADC_EnabledInputs s) (nat j)"
    with c have "?P j" by simp
    with least have "nat (c - iReadInput s) \<le> nat (j - iReadInput s)" by blast
    with j show False by arith
  qed
  from assms c have "ADC_StartRead s = start_conversion c s"
    unfolding ADC_StartRead_def
    by (intro ADC_StartRead_loop_first first) auto
  with start_conversion_responsive [OF assms(2), of c] show ?thesis by auto
next
  case False
  with assms have "ADC_StartRead s = Inr s"
    unfolding ADC_StartRead_def
    by (intro ADC_StartRead_loop_none) auto
  then show ?thesis by simp
qed

lemma ADC_StartRead_fault: "- 1 \<le> iReadInput s \<Longrightarrow> ADC_StartRead s = Inl e \<Longrightarrow> e = Hang"
  unfolding ADC_StartRead_def by (rule ADC_StartRead_loop_fault) auto

text \<open>
  C10. When ADC_Handler runs while an input is being read (\<open>iReadInput\<close> in \<open>[0, 5)\<close>,
  \<open>iBuffer\<close> in \<open>[0, 64)\<close>, \<open>iBufferPos\<close> in \<open>[0, 16)\<close>) its store into \<open>ADC_buffer\<close> is
  within the array: the write succeeds, the handler does not fail with an out-of-bounds
  access, and on a responsive peripheral it returns with the converted sample in that
  cell. The condition on the input is needed: with \<open>iReadInput = -1\<close>, the value
  ADC_UpdateBufferIdx leaves, the store has first index -1 and is out of bounds.
\<close>

theorem ADC_Handler_store_bounds:
  "(0 \<le> iReadInput s \<and> iReadInput s < N_ADC_INPUT
      \<and> 0 \<le> uint (iBuffer s) \<and> uint (iBuffer s) < N_ADC_BUFFERS
      \<and> 0 \<le> iBufferPos s \<and> iBufferPos s < N_ADC_BUFFER_POS \<longrightarrow>
      ADC_buffer_write (ADC_buffer s) (iReadInput s) (uint (iBuffer s)) (iBufferPos s)
          (sample_convert (RESULT (ADC s))) \<noteq> None
      \<and> ADC_Handler s \<noteq> Inl OutOfBounds
      \<and> (responsive (SYNCBUSY (ADC s)) \<longrightarrow>
           (\<exists>s'. ADC_Handler s = Inr s'
              \<and> ADC_buffer s' (iReadInput s) (uint (iBuffer s)) (iBufferPos s)
                   = sample_convert (RESULT (ADC s)))))
   \<and> (iReadInput s = - 1 \<longrightarrow>
      ADC_buffer_write (ADC_buffer s) (iReadInput s) (uint (iBuffer s)) (iBufferPos s)
          (sample_convert (RESULT (ADC s))) = None
      \<and> ADC_Handler s = Inl OutOfBounds)"
proof (intro conjI impI)
  assume pre: "0 \<le> iReadInput s \<and> iReadInput s < N_ADC_INPUT
      \<and> 0 \<le> uint (iBuffer s) \<and> uint (iBuffer s) < N_ADC_BUFFERS
      \<and> 0 \<le> iBufferPos s \<and> iBufferPos s < N_ADC_BUFFER_POS"
  then have b: "in_bounds (iReadInput s) (uint (iBuffer s)) (iBufferPos s)"
    by (simp add: in_bounds_def)
  then show "ADC_buffer_write (ADC_buffer s) (iReadInput s) (uint (iBuffer s)) (iBufferPos s)
          (sample_convert (RESULT (ADC s))) \<noteq> None"
    by (simp add: ADC_buffer_write_def)
  let ?s1 = "s\<lparr>ADC := (ADC s)\<lparr>in_flight := False\<rparr>,
          ADC_buffer := (\<lambda>i' j' k'.
             if i' = iReadInput s \<and> j' = uint (iBuffer s) \<and> k' = iBufferPos s
             then sample_convert (RESULT (ADC s)) else ADC_buffer s i' j' k')\<rparr>"
  from pre have r: "- 1 \<le> iReadInput ?s1" by simp
  show "ADC_Handler s \<noteq> Inl OutOfBounds"
    using ADC_StartRead_fault [OF r, of OutOfBounds] ADC_Handler_stores [OF b] by auto
  assume "responsive (SYNCBUSY (ADC s))"
  then have "responsive (SYNCBUSY (ADC ?s1))" by simp
  from ADC_StartRead_returns [OF r this] ADC_Handler_stores [OF b]
  show "\<exists>s'. ADC_Handler s = Inr s'
              \<and> ADC_buffer s' (iReadInput s) (uint (iBuffer s)) (iBufferPos s)
                   = sample_convert (RESULT (ADC s))"
    by auto
next
  assume idle: "iReadInput s = - 1"
  then show "ADC_buffer_write (ADC_buffer s) (iReadInput s) (uint (iBuffer s)) (iBufferPos s)
          (sample_convert (RESULT (ADC s))) = None"
    by (simp add: ADC_buffer_write_def in_bounds_def)
  then show "ADC_Handler s = Inl OutOfBounds"
    by (simp add: ADC_Handler_def Let_def)
qed

theorem ADC_Handler_store_bounds_witness:
  "0 \<le> iReadInput adc_state2 \<and> iReadInput adc_state2 < N_ADC_INPUT
   \<and> 0 \<le> uint (iBuffer adc_state2) \<and> uint (iBuffer adc_state2) < N_ADC_BUFFERS
   \<and> 0 \<le> iBufferPos adc_state2 \<and> iBufferPos adc_state2 < N_ADC_BUFFER_POS
   \<and> responsive (SYNCBUSY (ADC adc_state2))
   \<and> (\<exists>s'. ADC_Handler adc_state2 = Inr s' \<and> sint (ADC_buffer s' 0 63 0) = - 1)
   \<and> iReadInput adc_state1 = - 1
   \<and> ADC_Handler adc_state1 = Inl OutOfBounds"
proof -
  have pre: "0 \<le> iReadInput adc_state2 \<and> iReadInput adc_state2 < N_ADC_INPUT
   \<and> 0 \<le> uint (iBuffer adc_state2) \<and> uint (iBuffer adc_state2) < N_ADC_BUFFERS
   \<and> 0 \<le> iBufferPos adc_state2 \<and> iBufferPos adc_state2 < N_ADC_BUFFER_POS"
    by (simp add: adc_state2_def adc_state1_def adc_state0_def N_ADC_INPUT_def
        N_ADC_BUFFERS_def N_ADC_BUFFER_POS_def)
  have r: "responsive (SYNCBUSY (ADC adc_state2))"
    by (simp add: adc_state2_def adc_state1_def adc_state0_def adc_regs0_def
        responsive_busy_twice)
  have v: "iReadInput adc_state2 = 0" "uint (iBuffer adc_state2) = 63"
    "iBufferPos adc_state2 = 0" "RESULT (ADC adc_state2) = 0x0FFF"
    by (simp_all add: adc_state2_def adc_state1_def adc_state0_def)
  have i: "iReadInput adc_state1 = - 1" by (simp add: adc_state1_def adc_state0_def)
  from ADC_Handler_store_bounds [of adc_state2] pre r
  have "\<exists>s'. ADC_Handler adc_state2 = Inr s' \<and> sint (ADC_buffer s' 0 63 0) = - 1"
    by (auto simp add: v sample_convert_def)
  with ADC_Handler_store_bounds [of adc_state1] pre r i show ?thesis by blast
qed

section \<open>A full round\<close>

lemma filter_upto_first:
  assumes "i \<le> c" and "c \<le> n" and "P c" and "\<forall>j. i \<le> j \<and> j < c \<longrightarrow> \<not> P j"
  shows "filter P [i..n] = c # filter P [c + 1..n]"
proof -
  from assms(1,2) have "[i..n] = [i..c - 1] @ c # [c + 1..n]" by (rule upto_split3)
  moreover from assms(4) have "filter P [i..c - 1] = []" by (auto simp add: filter_empty_conv)
  ultimately show ?thesis using assms(3) by simp
qed

lemma first_enabled:
  fixes r n :: int
  assumes "\<exists>i. r < i \<and> i < n \<and> P i"
  shows "\<exists>c. r < c \<and> c < n \<and> P c \<and> (\<forall>j. r + 1 \<le> j \<and> j < c \<longrightarrow> \<not> P j)"
proof -
  let ?Q = "\<lambda>i::int. r < i \<and> i < n \<and> P i"
  from assms obtain i0 where "?Q i0" by blast
  from ex_has_least_nat [of ?Q i0 "\<lambda>i. nat (i - r)", OF this]
  obtain c where c: "?Q c" and least: "\<forall>y. ?Q y \<longrightarrow> nat (c - r) \<le> nat (y - r)"
    by blast
  have "\<forall>j. r + 1 \<le> j \<and> j < c \<longrightarrow> \<not> P j"
  proof (intro allI impI notI)
    fix j assume j: "r + 1 \<le> j \<and> j < c" and b: "P j"
    with c have "?Q j" by simp
    with least have "nat (c - r) \<le> nat (j - r)" by blast
    with j show False by arith
  qed
  with c show ?thesis by blast
qed

lemma conversion_chain:
  assumes "in_flight (ADC s)"
    and "0 \<le> iReadInput s" and "iReadInput s < N_ADC_INPUT"
    and "uint (iBuffer s) < N_ADC_BUFFERS"
    and "0 \<le> iBufferPos s" and "iBufferPos s < N_ADC_BUFFER_POS"
    and "responsive (SYNCBUSY (ADC s))"
    and "length (filter (\<lambda>i. bit (ADC_EnabledInputs s) (nat i)) [iReadInput s + 1..4])
           < length raws"
  shows "\<exists>s'. conversion_events raws s = Inr s'
     \<and> STARTS (ADC s') = STARTS (ADC s)
          @ map (\<lambda>i. regInputs ! nat i)
              (filter (\<lambda>i. bit (ADC_EnabledInputs s) (nat i)) [iReadInput s + 1..4])
     \<and> \<not> in_flight (ADC s')
     \<and> iReadInput s' =
          last (iReadInput s # filter (\<lambda>i. bit (ADC_EnabledInputs s) (nat i)) [iReadInput s + 1..4])
     \<and> ADC_EnabledInputs s' = ADC_EnabledInputs s
     \<and> iBuffer s' = iBuffer s \<and> iBufferPos s' = iBufferPos s
     \<and> iBufferTransmit s' = iBufferTransmit s \<and> ADC_Gain s' = ADC_Gain s
     \<and> (\<forall>i j k. ADC_buffer s' i j k =
          (if j = uint (iBuffer s) \<and> k = iBufferPos s
               \<and> (i = iReadInput s
                    \<or> (iReadInput s < i \<and> i \<le> 4 \<and> bit (ADC_EnabledInputs s) (nat i)))
           then sample_convert
                  (raws ! length (filter (\<lambda>i. bit (ADC_EnabledInputs s) (nat i))
                                    [iReadInput s + 1..i]))
           else ADC_buffer s i j k))"
  using assms
proof (induction "nat (N_ADC_INPUT - iReadInput s)" arbitrary: s raws rule: less_induct)
  case less
  let ?c = "iReadInput s"
  let ?P = "\<lambda>i. bit (ADC_EnabledInputs s) (nat i)"
  from less.prems(8) obtain r rs where raws: "raws = r # rs" by (cases raws) auto
  define buf where "buf = (\<lambda>i' j' k'.
     if i' = ?c \<and> j' = uint (iBuffer s) \<and> k' = iBufferPos s
     then sample_convert r else ADC_buffer s i' j' k')"
  define s1 where "s1 = s\<lparr>ADC := (ADC s)\<lparr>RESULT := r, in_flight := False\<rparr>, ADC_buffer := buf\<rparr>"
  have s1: "iReadInput s1 = ?c" "ADC_EnabledInputs s1 = ADC_EnabledInputs s"
    "iBuffer s1 = iBuffer s" "iBufferPos s1 = iBufferPos s"
    "iBufferTransmit s1 = iBufferTransmit s" "ADC_Gain s1 = ADC_Gain s"
    "ADC_buffer s1 = buf" "STARTS (ADC s1) = STARTS (ADC s)" "\<not> in_flight (ADC s1)"
    "SYNCBUSY (ADC s1) = SYNCBUSY (ADC s)"
    by (simp_all add: s1_def)
  have "in_bounds (iReadInput (s\<lparr>ADC := (ADC s)\<lparr>RESULT := r\<rparr>\<rparr>))
          (uint (iBuffer (s\<lparr>ADC := (ADC s)\<lparr>RESULT := r\<rparr>\<rparr>)))
          (iBufferPos (s\<lparr>ADC := (ADC s)\<lparr>RESULT := r\<rparr>\<rparr>))"
    using less.prems by (simp add: in_bounds_def)
  from ADC_Handler_stores [OF this]
  have handler: "ADC_Handler (s\<lparr>ADC := (ADC s)\<lparr>RESULT := r\<rparr>\<rparr>) = ADC_StartRead s1"
    by (simp add: s1_def buf_def cong: if_cong)
  show ?case
  proof (cases "\<exists>i. ?c < i \<and> i < N_ADC_INPUT \<and> ?P i")
    case False
    with less.prems(2) have "ADC_StartRead s1 = Inr s1"
      unfolding ADC_StartRead_def
      by (intro ADC_StartRead_loop_none) (auto simp add: s1)
    with handler less.prems(1) have run: "conversion_events raws s = Inr s1"
      by (cases rs) (simp_all add: raws s1)
    from False have empty: "filter ?P [?c + 1..4] = []"
      by (auto simp add: filter_empty_conv N_ADC_INPUT_def)
    have cell: "ADC_buffer s1 i j k =
          (if j = uint (iBuffer s) \<and> k = iBufferPos s
               \<and> (i = ?c \<or> (?c < i \<and> i \<le> 4 \<and> ?P i))
           then sample_convert (raws ! length (filter ?P [?c + 1..i]))
           else ADC_buffer s i j k)" for i j k
      using False by (auto simp add: s1 buf_def raws N_ADC_INPUT_def)
    from run empty cell show ?thesis by (simp add: s1)
  next
    case True
    from first_enabled [OF True] obtain c where
      c: "?c < c" "c < N_ADC_INPUT" "?P c" and first: "\<forall>j. ?c + 1 \<le> j \<and> j < c \<longrightarrow> \<not> ?P j"
      by blast
    from less.prems(2) c first have "ADC_StartRead s1 = start_conversion c s1"
      unfolding ADC_StartRead_def
      by (intro ADC_StartRead_loop_first) (auto simp add: s1)
    moreover from less.prems(7) have "responsive (SYNCBUSY (ADC s1))" by (simp add: s1)
    from start_conversion_responsive [OF this, of c] obtain k0 where
      "start_conversion c s1 =
           Inr (s1\<lparr>iReadInput := c,
                  ADC := (ADC s1)\<lparr>MUXPOS := regInputs ! nat c,
                                  FLUSHES := Suc (FLUSHES (ADC s1)),
                                  STARTS := STARTS (ADC s1) @ [regInputs ! nat c],
                                  in_flight := True,
                                  STATUS_reads := k0\<rparr>\<rparr>)" by blast
    moreover define s2 where "s2 = s1\<lparr>iReadInput := c,
                  ADC := (ADC s1)\<lparr>MUXPOS := regInputs ! nat c,
                                  FLUSHES := Suc (FLUSHES (ADC s1)),
                                  STARTS := STARTS (ADC s1) @ [regInputs ! nat c],
                                  in_flight := True,
                                  STATUS_reads := k0\<rparr>\<rparr>"
    ultimately have "ADC_StartRead s1 = Inr s2" by simp
    with handler less.prems(1) have run: "conversion_events raws s = conversion_events rs s2"
      by (simp add: raws)
    have s2: "iReadInput s2 = c" "ADC_EnabledInputs s2 = ADC_EnabledInputs s"
      "iBuffer s2 = iBuffer s" "iBufferPos s2 = iBufferPos s"
      "iBufferTransmit s2 = iBufferTransmit s" "ADC_Gain s2 = ADC_Gain s"
      "ADC_buffer s2 = buf" "STARTS (ADC s2) = STARTS (ADC s) @ [regInputs ! nat c]"
      "in_flight (ADC s2)" "SYNCBUSY (ADC s2) = SYNCBUSY (ADC s)"
      by (simp_all add: s2_def s1)
    from c have split: "filter ?P [?c + 1..n] = c # filter ?P [c + 1..n]" if "c \<le> n" for n
      using that first by (intro filter_upto_first) auto
    from c have c4: "c \<le> 4" by (simp add: N_ADC_INPUT_def)
    have "\<exists>s'. conversion_events rs s2 = Inr s'
     \<and> STARTS (ADC s') = STARTS (ADC s2)
          @ map (\<lambda>i. regInputs ! nat i)
              (filter (\<lambda>i. bit (ADC_EnabledInputs s2) (nat i)) [iReadInput s2 + 1..4])
     \<and> \<not> in_flight (ADC s')
     \<and> iReadInput s' =
          last (iReadInput s2 # filter (\<lambda>i. bit (ADC_EnabledInputs s2) (nat i)) [iReadInput s2 + 1..4])
     \<and> ADC_EnabledInputs s' = ADC_EnabledInputs s2
     \<and> iBuffer s' = iBuffer s2 \<and> iBufferPos s' = iBufferPos s2
     \<and> iBufferTransmit s' = iBufferTransmit s2 \<and> ADC_Gain s' = ADC_Gain s2
     \<and> (\<forall>i j k. ADC_buffer s' i j k =
          (if j = uint (iBuffer s2) \<and> k = iBufferPos s2
               \<and> (i = iReadInput s2
                    \<or> (iReadInput s2 < i \<and> i \<le> 4 \<and> bit (ADC_EnabledInputs s2) (nat i)))
           then sample_convert
                  (rs ! length (filter (\<lambda>i. bit (ADC_EnabledInputs s2) (nat i))
                                    [iReadInput s2 + 1..i]))
           else ADC_buffer s2 i j k))"
    proof (rule less.hyps)
      show "nat (N_ADC_INPUT - iReadInput s2) < nat (N_ADC_INPUT - ?c)"
        using c by (simp add: s2)
      show "length (filter (\<lambda>i. bit (ADC_EnabledInputs s2) (nat i)) [iReadInput s2 + 1..4])
              < length rs"
        using less.prems(8) split [OF c4] by (simp add: s2 raws)
    qed (use less.prems c in \<open>simp_all add: s2\<close>)
    then obtain s' where fin: "conversion_events rs s2 = Inr s'"
      and starts: "STARTS (ADC s') = (STARTS (ADC s) @ [regInputs ! nat c])
          @ map (\<lambda>i. regInputs ! nat i) (filter ?P [c + 1..4])"
      and idle: "\<not> in_flight (ADC s')"
      and lastc: "iReadInput s' = last (c # filter ?P [c + 1..4])"
      and frame: "ADC_EnabledInputs s' = ADC_EnabledInputs s"
        "iBuffer s' = iBuffer s" "iBufferPos s' = iBufferPos s"
        "iBufferTransmit s' = iBufferTransmit s" "ADC_Gain s' = ADC_Gain s"
      and cells: "\<And>i j k. ADC_buffer s' i j k =
          (if j = uint (iBuffer s) \<and> k = iBufferPos s
               \<and> (i = c \<or> (c < i \<and> i \<le> 4 \<and> ?P i))
           then sample_convert (rs ! length (filter ?P [c + 1..i]))
           else buf i j k)"
      unfolding s2 by blast
    have cell: "ADC_buffer s' i j k =
          (if j = uint (iBuffer s) \<and> k = iBufferPos s
               \<and> (i = ?c \<or> (?c < i \<and> i \<le> 4 \<and> ?P i))
           then sample_convert (raws ! length (filter ?P [?c + 1..i]))
           else ADC_buffer s i j k)" for i j k
    proof (cases "c \<le> i")
      case True
      with c c4 first split [OF True] show ?thesis
        by (auto simp add: cells raws buf_def)
    next
      case False
      then have "i < c" by simp
      have "filter ?P [?c + 1..i] = []" if "?c < i"
        using first \<open>i < c\<close> by (auto simp add: filter_empty_conv)
      with \<open>i < c\<close> first show ?thesis
        by (auto simp add: cells raws buf_def)
    qed
    from run fin starts idle lastc frame cell split [OF c4] show ?thesis
      by simp
  qed
qed

lemma ADC_UpdateBufferIdx_enabled:
  assumes "ADC_EnabledInputs s \<noteq> 0"
    and "uint (iBuffer s) < N_ADC_BUFFERS" and "0 \<le> iBufferPos s"
    and "iBufferPos s < N_ADC_BUFFER_POS"
  shows "iReadInput (ADC_UpdateBufferIdx s) = - 1"
    and "ADC_EnabledInputs (ADC_UpdateBufferIdx s) = ADC_EnabledInputs s"
    and "ADC (ADC_UpdateBufferIdx s) = ADC s"
    and "ADC_buffer (ADC_UpdateBufferIdx s) = ADC_buffer s"
    and "ADC_Gain (ADC_UpdateBufferIdx s) = ADC_Gain s"
    and "uint (iBuffer (ADC_UpdateBufferIdx s)) < N_ADC_BUFFERS"
    and "0 \<le> iBufferPos (ADC_UpdateBufferIdx s)"
    and "iBufferPos (ADC_UpdateBufferIdx s) < N_ADC_BUFFER_POS"
  using assms
  by (simp_all add: ADC_UpdateBufferIdx_def Let_def uint_next_buffer N_ADC_BUFFERS_def
      N_ADC_BUFFER_POS_def)

text \<open>
  C1, as the code has it. Take a state with some input enabled, no conversion in flight
  and the buffer indexes in range, a responsive peripheral, and a raw reading for each
  enabled input. A full round (ADC_UpdateBufferIdx and ADC_StartRead, then ADC_Handler for
  each conversion-complete interrupt until no conversion is in flight) starts a conversion
  for exactly the enabled inputs among 0..4, each once, in ascending order; it stores the
  n-th reading, converted, in the cell of the n-th enabled input at the current buffer and
  position and leaves every other cell alone; and it ends with no conversion in flight.
  \<open>iReadInput\<close> is then the last input read (ADC_StartRead does not reset it when it finds
  no further input); it is -1 only when none of the inputs 0..4 is enabled.
\<close>

theorem full_round_visits:
  assumes "ADC_EnabledInputs s \<noteq> 0" and "\<not> in_flight (ADC s)"
    and "uint (iBuffer s) < N_ADC_BUFFERS"
    and "0 \<le> iBufferPos s" and "iBufferPos s < N_ADC_BUFFER_POS"
    and "responsive (SYNCBUSY (ADC s))"
    and "length (filter (\<lambda>i. bit (ADC_EnabledInputs s) (nat i)) [0..4]) \<le> length raws"
  shows "\<exists>s'. full_round raws s = Inr s'
     \<and> STARTS (ADC s') = STARTS (ADC s)
          @ map (\<lambda>i. regInputs ! nat i)
              (filter (\<lambda>i. bit (ADC_EnabledInputs s) (nat i)) [0..4])
     \<and> \<not> in_flight (ADC s')
     \<and> iReadInput s' = last (- 1 # filter (\<lambda>i. bit (ADC_EnabledInputs s) (nat i)) [0..4])
     \<and> ADC_EnabledInputs s' = ADC_EnabledInputs s
     \<and> iBuffer s' = iBuffer (ADC_UpdateBufferIdx s)
     \<and> iBufferPos s' = iBufferPos (ADC_UpdateBufferIdx s)
     \<and> iBufferTransmit s' = iBufferTransmit (ADC_UpdateBufferIdx s)
     \<and> ADC_Gain s' = ADC_Gain s
     \<and> (\<forall>i j k. ADC_buffer s' i j k =
          (if j = uint (iBuffer s') \<and> k = iBufferPos s'
               \<and> 0 \<le> i \<and> i \<le> 4 \<and> bit (ADC_EnabledInputs s) (nat i)
           then sample_convert
                  (raws ! length (filter (\<lambda>i. bit (ADC_EnabledInputs s) (nat i)) [0..i - 1]))
           else ADC_buffer s i j k))"
proof -
  let ?P = "\<lambda>i. bit (ADC_EnabledInputs s) (nat i)"
  define u where "u = ADC_UpdateBufferIdx s"
  note upd = ADC_UpdateBufferIdx_enabled [OF assms(1,3,4,5), folded u_def]
  show ?thesis
  proof (cases "\<exists>i. - 1 < i \<and> i < N_ADC_INPUT \<and> ?P i")
    case False
    then have "ADC_StartRead u = Inr u"
      unfolding ADC_StartRead_def
      by (intro ADC_StartRead_loop_none) (auto simp add: upd)
    with assms(2) have run: "full_round raws s = Inr u"
      by (cases raws) (simp_all add: full_round_def round_advance_def upd flip: u_def)
    from False have empty: "filter ?P [0..4] = []"
      by (auto simp add: filter_empty_conv N_ADC_INPUT_def)
    from False have "\<not> (0 \<le> i \<and> i \<le> 4 \<and> ?P i)" for i
      by (auto simp add: N_ADC_INPUT_def)
    with run empty assms(2) show ?thesis
      by (auto simp add: upd simp flip: u_def)
  next
    case True
    from first_enabled [OF True] obtain c where
      c: "- 1 < c" "c < N_ADC_INPUT" "?P c" and first: "\<forall>j. - 1 + 1 \<le> j \<and> j < c \<longrightarrow> \<not> ?P j"
      by blast
    from c first have "ADC_StartRead u = start_conversion c u"
      unfolding ADC_StartRead_def
      by (intro ADC_StartRead_loop_first) (auto simp add: upd)
    moreover from assms(6) have "responsive (SYNCBUSY (ADC u))" by (simp add: upd)
    from start_conversion_responsive [OF this, of c] obtain k0 where
      "start_conversion c u =
           Inr (u\<lparr>iReadInput := c,
                  ADC := (ADC u)\<lparr>MUXPOS := regInputs ! nat c,
                                  FLUSHES := Suc (FLUSHES (ADC u)),
                                  STARTS := STARTS (ADC u) @ [regInputs ! nat c],
                                  in_flight := True,
                                  STATUS_reads := k0\<rparr>\<rparr>)" by blast
    moreover define s2 where "s2 = u\<lparr>iReadInput := c,
                  ADC := (ADC u)\<lparr>MUXPOS := regInputs ! nat c,
                                  FLUSHES := Suc (FLUSHES (ADC u)),
                                  STARTS := STARTS (ADC u) @ [regInputs ! nat c],
                                  in_flight := True,
                                  STATUS_reads := k0\<rparr>\<rparr>"
    ultimately have "ADC_StartRead u = Inr s2" by simp
    then have run: "full_round raws s = conversion_events raws s2"
      by (simp add: full_round_def round_advance_def flip: u_def)
    have s2: "iReadInput s2 = c" "ADC_EnabledInputs s2 = ADC_EnabledInputs s"
      "iBuffer s2 = iBuffer u" "iBufferPos s2 = iBufferPos u"
      "iBufferTransmit s2 = iBufferTransmit u" "ADC_Gain s2 = ADC_Gain s"
      "ADC_buffer s2 = ADC_buffer s" "STARTS (ADC s2) = STARTS (ADC s) @ [regInputs ! nat c]"
      "in_flight (ADC s2)" "SYNCBUSY (ADC s2) = SYNCBUSY (ADC s)"
      by (simp_all add: s2_def upd)
    from c have split: "filter ?P [0..n] = c # filter ?P [c + 1..n]" if "c \<le> n" for n
      using that first by (intro filter_upto_first) auto
    from c have c4: "c \<le> 4" by (simp add: N_ADC_INPUT_def)
    have "\<exists>s'. conversion_events raws s2 = Inr s'
     \<and> STARTS (ADC s') = STARTS (ADC s2)
          @ map (\<lambda>i. regInputs ! nat i)
              (filter (\<lambda>i. bit (ADC_EnabledInputs s2) (nat i)) [iReadInput s2 + 1..4])
     \<and> \<not> in_flight (ADC s')
     \<and> iReadInput s' =
          last (iReadInput s2 # filter (\<lambda>i. bit (ADC_EnabledInputs s2) (nat i)) [iReadInput s2 + 1..4])
     \<and> ADC_EnabledInputs s' = ADC_EnabledInputs s2
     \<and> iBuffer s' = iBuffer s2 \<and> iBufferPos s' = iBufferPos s2
     \<and> iBufferTransmit s' = iBufferTransmit s2 \<and> ADC_Gain s' = ADC_Gain s2
     \<and> (\<forall>i j k. ADC_buffer s' i j k =
          (if j = uint (iBuffer s2) \<and> k = iBufferPos s2
               \<and> (i = iReadInput s2
                    \<or> (iReadInput s2 < i \<and> i \<le> 4 \<and> bit (ADC_EnabledInputs s2) (nat i)))
           then sample_convert
                  (raws ! length (filter (\<lambda>i. bit (ADC_EnabledInputs s2) (nat i))
                                    [iReadInput s2 + 1..i]))
           else ADC_buffer s2 i j k))"
    proof (rule conversion_chain)
      show "length (filter (\<lambda>i. bit (ADC_EnabledInputs s2) (nat i)) [iReadInput s2 + 1..4])
              < length raws"
        using assms(7) split [OF c4] by (simp add: s2)
    qed (use assms c upd in \<open>simp_all add: s2\<close>)
    then obtain s' where fin: "conversion_events raws s2 = Inr s'"
      and starts: "STARTS (ADC s') = (STARTS (ADC s) @ [regInputs ! nat c])
          @ map (\<lambda>i. regInputs ! nat i) (filter ?P [c + 1..4])"
      and idle: "\<not> in_flight (ADC s')"
      and lastc: "iReadInput s' = last (c # filter ?P [c + 1..4])"
      and frame: "ADC_EnabledInputs s' = ADC_EnabledInputs s"
        "iBuffer s' = iBuffer u" "iBufferPos s' = iBufferPos u"
        "iBufferTransmit s' = iBufferTransmit u" "ADC_Gain s' = ADC_Gain s"
      and cells: "\<And>i j k. ADC_buffer s' i j k =
          (if j = uint (iBuffer u) \<and> k = iBufferPos u
               \<and> (i = c \<or> (c < i \<and> i \<le> 4 \<and> ?P i))
           then sample_convert (raws ! length (filter ?P [c + 1..i]))
           else ADC_buffer s i j k)"
      unfolding s2 by blast
    have below: "length (filter ?P [c + 1..i]) = length (filter ?P [0..i - 1])"
      if "c \<le> i" "?P i" for i
    proof -
      from that c have "[0..i] = [0..i - 1] @ [i]" by (intro upto_rec2) simp
      with that have "filter ?P [0..i] = filter ?P [0..i - 1] @ [i]" by simp
      with split [OF that(1)] show ?thesis
        by (metis length_Cons length_append_singleton nat.inject)
    qed
    have cell: "ADC_buffer s' i j k =
          (if j = uint (iBuffer s') \<and> k = iBufferPos s'
               \<and> 0 \<le> i \<and> i \<le> 4 \<and> ?P i
           then sample_convert (raws ! length (filter ?P [0..i - 1]))
           else ADC_buffer s i j k)" for i j k
    proof (cases "c \<le> i")
      case True
      with c c4 below [OF True] show ?thesis
        by (auto simp add: cells frame)
    next
      case False
      with first have "\<not> (0 \<le> i \<and> i \<le> 4 \<and> ?P i)" by auto
      with False show ?thesis
        by (auto simp add: cells frame)
    qed
    from run fin starts idle lastc frame cell split [OF c4] show ?thesis
      by (simp flip: u_def)
  qed
qed

lemma enabled5: "filter (\<lambda>i. bit (5 :: 8 word) (nat i)) [0..4] = [0, 2]"
  by (simp add: upto.simps)

lemma below5: "filter (\<lambda>i. bit (5 :: 8 word) (nat i)) [0..2 - 1] = [0]"
  by (simp add: upto.simps)

theorem full_round_visits_witness:
  "ADC_EnabledInputs adc_state1 \<noteq> 0 \<and> \<not> in_flight (ADC adc_state1)
   \<and> uint (iBuffer adc_state1) < N_ADC_BUFFERS
   \<and> 0 \<le> iBufferPos adc_state1 \<and> iBufferPos adc_state1 < N_ADC_BUFFER_POS
   \<and> responsive (SYNCBUSY (ADC adc_state1))
   \<and> length (filter (\<lambda>i. bit (ADC_EnabledInputs adc_state1) (nat i)) [0..4])
        \<le> length [0x0FFF, 0x07FF :: 16 word]
   \<and> (\<exists>s'. full_round [0x0FFF, 0x07FF] adc_state1 = Inr s'
         \<and> STARTS (ADC s') = [A1, A3] \<and> \<not> in_flight (ADC s') \<and> iReadInput s' = 2
         \<and> iBuffer s' = 63 \<and> iBufferPos s' = 1
         \<and> sint (ADC_buffer s' 0 63 1) = - 1 \<and> sint (ADC_buffer s' 2 63 1) = 2047
         \<and> ADC_buffer s' 1 63 1 = 0)"
proof -
  have v: "ADC_EnabledInputs adc_state1 = 5" "\<not> in_flight (ADC adc_state1)"
    "iBuffer adc_state1 = 63" "iBufferPos adc_state1 = 0" "STARTS (ADC adc_state1) = []"
    "ADC_buffer adc_state1 = (\<lambda>i j k. 0)"
    by (simp_all add: adc_state1_def adc_state0_def adc_regs0_def)
  have u: "iBuffer (ADC_UpdateBufferIdx adc_state1) = 63"
    "iBufferPos (ADC_UpdateBufferIdx adc_state1) = 1"
    by (simp_all add: ADC_UpdateBufferIdx_def v N_ADC_BUFFER_POS_def Let_def)
  have en: "filter (\<lambda>i. bit (ADC_EnabledInputs adc_state1) (nat i)) [0..4] = [0, 2]"
    unfolding v by (rule enabled5)
  have bl: "filter (\<lambda>i. bit (ADC_EnabledInputs adc_state1) (nat i)) [0..2 - 1] = [0]"
    unfolding v by (rule below5)
  have h: "ADC_EnabledInputs adc_state1 \<noteq> 0" "\<not> in_flight (ADC adc_state1)"
    "uint (iBuffer adc_state1) < N_ADC_BUFFERS"
    "0 \<le> iBufferPos adc_state1" "iBufferPos adc_state1 < N_ADC_BUFFER_POS"
    "responsive (SYNCBUSY (ADC adc_state1))"
    "length (filter (\<lambda>i. bit (ADC_EnabledInputs adc_state1) (nat i)) [0..4])
        \<le> length [0x0FFF, 0x07FF :: 16 word]"
    unfolding en
    by (simp_all add: v N_ADC_BUFFERS_def N_ADC_BUFFER_POS_def responsive_adc_state1)
  from full_round_visits [OF h] obtain s' where
    r: "full_round [0x0FFF, 0x07FF] adc_state1 = Inr s'"
      "STARTS (ADC s') = STARTS (ADC adc_state1)
          @ map (\<lambda>i. regInputs ! nat i)
              (filter (\<lambda>i. bit (ADC_EnabledInputs adc_state1) (nat i)) [0..4])"
      "\<not> in_flight (ADC s')"
      "iReadInput s' = last (- 1 # filter (\<lambda>i. bit (ADC_EnabledInputs adc_state1) (nat i)) [0..4])"
      "iBuffer s' = iBuffer (ADC_UpdateBufferIdx adc_state1)"
      "iBufferPos s' = iBufferPos (ADC_UpdateBufferIdx adc_state1)"
    and cells: "\<And>i j k. ADC_buffer s' i j k =
          (if j = uint (iBuffer s') \<and> k = iBufferPos s'
               \<and> 0 \<le> i \<and> i \<le> 4 \<and> bit (ADC_EnabledInputs adc_state1) (nat i)
           then sample_convert
                  ([0x0FFF, 0x07FF] ! length (filter (\<lambda>i. bit (ADC_EnabledInputs adc_state1) (nat i)) [0..i - 1]))
           else ADC_buffer adc_state1 i j k)"
    by blast
  have "sint (ADC_buffer s' 0 63 1) = - 1" "sint (ADC_buffer s' 2 63 1) = 2047"
    "ADC_buffer s' 1 63 1 = 0"
    unfolding cells bl by (simp_all add: r u v sample_convert_def)
  with h r show ?thesis
    unfolding en by (simp add: u v regInputs_def)
qed

text \<open>
  With inputs 0 and 2 enabled the round ends with \<open>iReadInput = 2\<close>, not -1: the machine
  is idle, but the reading input is not back to none.
\<close>

theorem full_round_keeps_last_input:
  "map_sum id iReadInput (full_round [0x0FFF, 0x07FF] adc_state1) = Inr 2
   \<and> map_sum id iReadInput (full_round [0x0FFF, 0x07FF] adc_state1) \<noteq> Inr (- 1)"
  by (simp add: full_round_def round_advance_def ADC_UpdateBufferIdx_def ADC_StartRead_def
    ADC_StartRead_loop.simps start_conversion_def ADC_sync_def wait_sync.simps busy_twice_def
    adc_state1_def adc_state0_def adc_regs0_def N_ADC_INPUT_def N_ADC_BUFFER_POS_def N_ADC_BUFFERS_def
    input_enabled_def ADC_Handler_def ADC_buffer_write_def in_bounds_def regInputs_def Let_def)

section \<open>The datagram\<close>

lemma sample_lsb_ucast: "sample_lsb x = ucast x"
  unfolding sample_lsb_def
  by (rule bit_word_eqI) (auto simp add: bit_word_of_int_iff bit_sint_iff bit_ucast_iff bit_word_scast_iff)

lemma sample_msb_ucast: "sample_msb x = ucast (drop_bit 8 x)"
  unfolding sample_msb_def drop_bit_eq_div [symmetric]
  apply (rule bit_word_eqI)
  apply (auto simp add: bit_word_of_int_iff bit_sint_iff bit_ucast_iff bit_drop_bit_eq)
  done

lemma decode_sample_bytes: "decode_sample (sample_lsb x) (sample_msb x) = x"
  unfolding sample_lsb_ucast sample_msb_ucast decode_sample_def
  apply (rule bit_word_eqI)
  apply (auto simp add: bit_or_iff bit_ucast_iff bit_push_bit_iff bit_drop_bit_eq)
  done

declare UdpTransmit_positions.simps [simp del] UdpTransmit_inputs.simps [simp del]

lemma UdpTransmit_positions_result:
  assumes "0 \<le> iInput" and "iInput < N_ADC_INPUT" and "uint iBuffer_in < N_ADC_BUFFERS"
    and "0 \<le> iPos"
  shows "UdpTransmit_positions s iInput iBuffer_in iPos out =
     Inr (out @ concat (map (\<lambda>p. [sample_lsb (ADC_buffer s iInput (uint iBuffer_in) p),
                                     sample_msb (ADC_buffer s iInput (uint iBuffer_in) p)])
                          [iPos..15]))"
  using assms
proof (induction s iInput iBuffer_in iPos out rule: UdpTransmit_positions.induct)
  case (1 s iInput iBuffer_in iPos out)
  show ?case
  proof (cases "iPos < N_ADC_BUFFER_POS")
    case True
    with "1.prems" have rd: "ADC_buffer_read (ADC_buffer s) iInput (uint iBuffer_in) iPos
        = Some (ADC_buffer s iInput (uint iBuffer_in) iPos)"
      by (simp add: ADC_buffer_read_def in_bounds_def)
    from True have "[iPos..15] = iPos # [iPos + 1..15]"
      by (intro upto_rec1) (simp add: N_ADC_BUFFER_POS_def)
    moreover from "1.prems" have "0 \<le> iPos + 1" by simp
    note "1.IH" [OF True rd "1.prems"(1,2,3) this]
    ultimately show ?thesis
      using True rd by (subst UdpTransmit_positions.simps) simp
  next
    case False
    then have "[iPos..15] = []" by (simp add: N_ADC_BUFFER_POS_def)
    with False show ?thesis by (subst UdpTransmit_positions.simps) simp
  qed
qed

lemma UdpTransmit_inputs_result:
  assumes "0 \<le> iInput" and "uint iBuffer_in < N_ADC_BUFFERS"
  shows "UdpTransmit_inputs s iBuffer_in iInput out =
     Inr (out @ concat (map (\<lambda>c. concat (map (\<lambda>p.
                   [sample_lsb (ADC_buffer s c (uint iBuffer_in) p),
                    sample_msb (ADC_buffer s c (uint iBuffer_in) p)]) [0..15]))
               (filter (\<lambda>c. bit (ADC_EnabledInputs s) (nat c)) [iInput..4])))"
  using assms
proof (induction s iBuffer_in iInput out rule: UdpTransmit_inputs.induct)
  case (1 s iBuffer_in iInput out)
  show ?case
  proof (cases "iInput < N_ADC_INPUT")
    case True
    then have up: "[iInput..4] = iInput # [iInput + 1..4]"
      by (intro upto_rec1) (simp add: N_ADC_INPUT_def)
    from "1.prems" have nn: "\<not> iInput < 0" "0 \<le> iInput + 1" by simp_all
    show ?thesis
    proof (cases "bit (ADC_EnabledInputs s) (nat iInput)")
      case on: True
      with "1.prems" have en: "input_enabled (ADC_EnabledInputs s) iInput"
        by (simp add: input_enabled_bit)
      have pos: "UdpTransmit_positions s iInput iBuffer_in 0 out =
         Inr (out @ concat (map (\<lambda>p. [sample_lsb (ADC_buffer s iInput (uint iBuffer_in) p),
                                     sample_msb (ADC_buffer s iInput (uint iBuffer_in) p)])
                          [0..15]))"
        using "1.prems" True by (intro UdpTransmit_positions_result) simp_all
      note "1.IH"(1) [OF True nn(1) en pos nn(2) "1.prems"(2)]
      with True nn en pos up on show ?thesis
        by (subst UdpTransmit_inputs.simps) simp
    next
      case off: False
      with "1.prems" have en: "\<not> input_enabled (ADC_EnabledInputs s) iInput"
        by (simp add: input_enabled_bit)
      note "1.IH"(2) [OF True nn(1) en nn(2) "1.prems"(2)]
      with True nn en up off show ?thesis
        by (subst UdpTransmit_inputs.simps) simp
    qed
  next
    case False
    then have "[iInput..4] = []" by (simp add: N_ADC_INPUT_def)
    with False show ?thesis by (subst UdpTransmit_inputs.simps) simp
  qed
qed

lemma decode_samples_bytes:
  "decode_samples (length xs)
     (concat (map (\<lambda>x. [sample_lsb x, sample_msb x]) xs) @ rest) = Some (xs, rest)"
  by (induction xs) (simp_all add: decode_sample_bytes)

lemma decode_channels_bytes:
  assumes "\<And>c. length (f c) = 16"
  shows "decode_channels m (map nat cs)
     (concat (map (\<lambda>c. concat (map (\<lambda>x. [sample_lsb x, sample_msb x]) (f c)))
        (filter (\<lambda>c. bit m (nat c)) cs)) @ rest)
     = Some (map (\<lambda>c. (nat c, f c)) (filter (\<lambda>c. bit m (nat c)) cs), rest)"
proof (induction cs)
  case Nil
  show ?case by simp
next
  case (Cons c cs)
  from decode_samples_bytes [of "f c"] assms [of c]
  have "decode_samples 16 (concat (map (\<lambda>x. [sample_lsb x, sample_msb x]) (f c)) @ r)
      = Some (f c, r)" for r
    by simp
  with Cons show ?case by simp
qed

lemma inputs_nat: "[0..<5] = map nat [0..4]"
  by (simp add: upto.simps upt_rec)

lemma length_concat_const:
  assumes "\<And>x. length (f x) = n"
  shows "length (concat (map f xs)) = n * length xs"
  by (induction xs) (simp_all add: assms)

text \<open>
  C8. For a buffer index in range, ADC_UdpTransmit sends to the given address and port a
  payload made of, in order: the data type byte, the buffer index, the mask of enabled
  inputs, and then, for each input 0..4 in ascending order whose bit is set in the mask,
  the 16 samples of that input in the buffer, in ascending position, each as its low byte
  followed by its high byte. The payload has 3 + 32 bytes for each enabled input (67 for
  the mask 0b00000101), and reading it back by the wire format gives the type, the buffer
  index, the mask and, for each enabled input, exactly the samples of the buffer. The
  overload without a data type sends the byte 'D' (0x44).
\<close>

theorem ADC_UdpTransmit_payload:
  assumes "uint iBuffer_in < N_ADC_BUFFERS"
  shows "\<exists>pkt. ADC_UdpTransmit s iBuffer_in IP_in Port_in DataType = Inr pkt
     \<and> remote_ip pkt = IP_in \<and> remote_port pkt = Port_in
     \<and> payload pkt = [of_nat (of_char DataType), iBuffer_in, ADC_EnabledInputs s]
          @ concat (map (\<lambda>c. concat (map (\<lambda>p.
                [ucast (ADC_buffer s c (uint iBuffer_in) p),
                 ucast (drop_bit 8 (ADC_buffer s c (uint iBuffer_in) p))]) [0..15]))
              (filter (\<lambda>c. bit (ADC_EnabledInputs s) (nat c)) [0..4]))
     \<and> length (payload pkt) =
          3 + 2 * 16 * length (filter (\<lambda>c. bit (ADC_EnabledInputs s) (nat c)) [0..4])
     \<and> (ADC_EnabledInputs s = 5 \<longrightarrow> length (payload pkt) = 3 + 2 * (2 * 16))
     \<and> decode_payload (payload pkt) =
          Some (of_nat (of_char DataType), iBuffer_in, ADC_EnabledInputs s,
                map (\<lambda>c. (nat c, map (\<lambda>p. ADC_buffer s c (uint iBuffer_in) p) [0..15]))
                  (filter (\<lambda>c. bit (ADC_EnabledInputs s) (nat c)) [0..4]))
     \<and> ADC_UdpTransmit_D s iBuffer_in IP_in Port_in
          = ADC_UdpTransmit s iBuffer_in IP_in Port_in CHR ''D''
     \<and> (of_nat (of_char CHR ''D'') :: 8 word) = 0x44"
proof -
  let ?en = "filter (\<lambda>c. bit (ADC_EnabledInputs s) (nat c)) [0..4]"
  let ?f = "\<lambda>c. map (\<lambda>p. ADC_buffer s c (uint iBuffer_in) p) [0..15]"
  let ?body = "concat (map (\<lambda>c. concat (map (\<lambda>p.
                [ucast (ADC_buffer s c (uint iBuffer_in) p),
                 ucast (drop_bit 8 (ADC_buffer s c (uint iBuffer_in) p))]) [0..15])) ?en)"
  let ?hd = "[of_nat (of_char DataType), iBuffer_in, ADC_EnabledInputs s] :: 8 word list"
  define pkt where "pkt = \<lparr>remote_ip = IP_in, remote_port = Port_in, payload = ?hd @ ?body\<rparr>"
  have "UdpTransmit_inputs s iBuffer_in 0 ?hd = Inr (?hd @ ?body)"
    using assms by (simp add: UdpTransmit_inputs_result sample_lsb_ucast sample_msb_ucast)
  then have run: "ADC_UdpTransmit s iBuffer_in IP_in Port_in DataType = Inr pkt"
    by (simp add: ADC_UdpTransmit_def pkt_def)
  have ip: "remote_ip pkt = IP_in" and port: "remote_port pkt = Port_in"
    and pl: "payload pkt = ?hd @ ?body"
    by (simp_all add: pkt_def)
  have "length ?body = 32 * length ?en"
    by (rule length_concat_const) (simp add: length_concat_const [where n = 2])
  then have len: "length (payload pkt) = 3 + 2 * 16 * length ?en"
    unfolding pl by simp
  have five: "filter (\<lambda>c. bit (5 :: 8 word) (nat c)) [0..4] = [0, 2]"
    by (simp add: upto.simps)
  have l5: "ADC_EnabledInputs s = 5 \<longrightarrow> length (payload pkt) = 3 + 2 * (2 * 16)"
    unfolding len using five by auto
  have "?body = concat (map (\<lambda>c. concat (map (\<lambda>x. [sample_lsb x, sample_msb x]) (?f c))) ?en)"
    by (simp add: sample_lsb_ucast sample_msb_ucast comp_def)
  with decode_channels_bytes [of ?f "ADC_EnabledInputs s" "[0..4]" "[]"]
  have "decode_channels (ADC_EnabledInputs s) [0..<5] ?body =
      Some (map (\<lambda>c. (nat c, ?f c)) ?en, [])"
    by (simp add: inputs_nat)
  then have dec: "decode_payload (payload pkt) =
      Some (of_nat (of_char DataType), iBuffer_in, ADC_EnabledInputs s,
            map (\<lambda>c. (nat c, ?f c)) ?en)"
    unfolding pl decode_payload_def by simp
  have dD: "ADC_UdpTransmit_D s iBuffer_in IP_in Port_in
          = ADC_UdpTransmit s iBuffer_in IP_in Port_in CHR ''D''"
    by (simp add: ADC_UdpTransmit_D_def)
  have d: "(of_nat (of_char CHR ''D'') :: 8 word) = 0x44" by simp
  show ?thesis
    by (intro exI [of _ pkt] conjI) (fact run ip port pl len l5 dec dD d)+
qed

theorem ADC_UdpTransmit_payload_witness:
  "uint (63 :: 8 word) < N_ADC_BUFFERS \<and> ADC_EnabledInputs adc_state3 = 5
   \<and> (\<exists>pkt. ADC_UdpTransmit adc_state3 63 0xC0A80101 4210 CHR ''D'' = Inr pkt
         \<and> remote_ip pkt = 0xC0A80101 \<and> remote_port pkt = 4210
         \<and> length (payload pkt) = 67
         \<and> take 5 (payload pkt) = [0x44, 63, 5, 0x02, 0x01]
         \<and> drop 65 (payload pkt) = [0xFE, 0xFF]
         \<and> decode_payload (payload pkt) =
              Some (0x44, 63, 5, [(0, map (\<lambda>p. 0x0102) [0..15]), (2, map (\<lambda>p. 0xFFFE) [0..15])]))"
proof -
  have h: "uint (63 :: 8 word) < N_ADC_BUFFERS" by (simp add: N_ADC_BUFFERS_def)
  have v: "ADC_EnabledInputs adc_state3 = 5"
    "ADC_buffer adc_state3 = (\<lambda>i j k. if i = 2 then 0xFFFE else 0x0102)"
    by (simp_all add: adc_state3_def adc_state1_def adc_state0_def)
  have five: "filter (\<lambda>c. bit (5 :: 8 word) (nat c)) [0..4] = [0, 2]"
    by (simp add: upto.simps)
  from ADC_UdpTransmit_payload [OF h, of adc_state3 "0xC0A80101" 4210 "CHR ''D''"]
  obtain pkt where
    run: "ADC_UdpTransmit adc_state3 63 0xC0A80101 4210 CHR ''D'' = Inr pkt"
      "remote_ip pkt = 0xC0A80101" "remote_port pkt = 4210"
    and pl: "payload pkt = [of_nat (of_char CHR ''D''), 63, ADC_EnabledInputs adc_state3]
          @ concat (map (\<lambda>c. concat (map (\<lambda>p.
                [ucast (ADC_buffer adc_state3 c (uint (63 :: 8 word)) p),
                 ucast (drop_bit 8 (ADC_buffer adc_state3 c (uint (63 :: 8 word)) p))]) [0..15]))
              (filter (\<lambda>c. bit (ADC_EnabledInputs adc_state3) (nat c)) [0..4]))"
    and len: "ADC_EnabledInputs adc_state3 = 5 \<longrightarrow> length (payload pkt) = 3 + 2 * (2 * 16)"
    and dec: "decode_payload (payload pkt) =
          Some (of_nat (of_char CHR ''D''), 63, ADC_EnabledInputs adc_state3,
                map (\<lambda>c. (nat c, map (\<lambda>p. ADC_buffer adc_state3 c (uint (63 :: 8 word)) p) [0..15]))
                  (filter (\<lambda>c. bit (ADC_EnabledInputs adc_state3) (nat c)) [0..4]))"
    by blast
  from len v have l: "length (payload pkt) = 67" by simp
  have pl': "payload pkt = [0x44, 63, 5]
          @ concat (map (\<lambda>c. concat (map (\<lambda>p.
                [ucast (if c = 2 then 0xFFFE else 0x0102 :: 16 word),
                 ucast (drop_bit 8 (if c = 2 then 0xFFFE else 0x0102 :: 16 word))]) [0..15]))
              [0, 2 :: int])"
    unfolding pl v five by simp
  have t: "take 5 (payload pkt) = [0x44, 63, 5, 0x02, 0x01]"
    unfolding pl' by (simp add: upto.simps)
  have d: "drop 65 (payload pkt) = [0xFE, 0xFF]"
    unfolding pl' by (simp add: upto.simps drop_bit_eq_div)
  have dec': "decode_payload (payload pkt) =
              Some (0x44, 63, 5, [(0, map (\<lambda>p. 0x0102) [0..15]), (2, map (\<lambda>p. 0xFFFE) [0..15])])"
    unfolding dec v five by simp
  from h v(1) run l t d dec' show ?thesis by blast
qed

section \<open>The timer frequency\<close>

lemma TC_sync_responsive:
  assumes "responsive (TC_SYNCBUSY tc)"
  shows "\<exists>k. TC_sync tc = Inr (tc\<lparr>TC_STATUS_reads := k\<rparr>)"
proof -
  from wait_sync_responsive [OF assms] obtain k
    where "wait_sync (TC_SYNCBUSY tc) (TC_STATUS_reads tc) = Some k" by blast
  then have "TC_sync tc = Inr (tc\<lparr>TC_STATUS_reads := k\<rparr>)"
    by (simp add: TC_sync_def)
  then show ?thesis by (rule exI)
qed

lemma compare_range:
  assumes "0 < hz" and "TIMER_PRESCALER_DIV * hz \<le> CPU_HZ"
  shows "0 \<le> CPU_HZ div (TIMER_PRESCALER_DIV * hz) - 1"
    and "CPU_HZ div (TIMER_PRESCALER_DIV * hz) - 1 < 46875"
    and "int_range (TIMER_PRESCALER_DIV * hz)"
    and "c_div CPU_HZ (TIMER_PRESCALER_DIV * hz) = CPU_HZ div (TIMER_PRESCALER_DIV * hz)"
proof -
  let ?d = "TIMER_PRESCALER_DIV * hz"
  from assms have d: "0 < ?d" "?d \<le> CPU_HZ" "1024 \<le> ?d"
    by (simp_all add: TIMER_PRESCALER_DIV_def)
  then have "0 < CPU_HZ div ?d"
    by (simp add: pos_imp_zdiv_pos_iff)
  then show "0 \<le> CPU_HZ div ?d - 1" by simp
  have "CPU_HZ div ?d \<le> CPU_HZ div 1024"
    using d by (intro zdiv_mono2) (simp_all add: CPU_HZ_def)
  then show "CPU_HZ div ?d - 1 < 46875" by (simp add: CPU_HZ_def)
  from d show "int_range ?d" by (simp add: int_range_def CPU_HZ_def)
  from d show "c_div CPU_HZ ?d = CPU_HZ div ?d" by (simp add: c_div_def CPU_HZ_def)
qed

lemma setTimerFrequency_result:
  assumes "0 < hz" and "TIMER_PRESCALER_DIV * hz \<le> CPU_HZ"
    and "responsive (TC_SYNCBUSY tc)"
  shows "\<exists>k. setTimerFrequency hz tc =
     Inr (tc\<lparr>COUNT := word_of_int (map_range (uint (COUNT tc)) 0 (uint (CC0 tc)) 0
                          (CPU_HZ div (TIMER_PRESCALER_DIV * hz) - 1)),
             CC0 := word_of_int (CPU_HZ div (TIMER_PRESCALER_DIV * hz) - 1),
             TC_STATUS_reads := k\<rparr>)"
proof -
  let ?cmp = "CPU_HZ div (TIMER_PRESCALER_DIV * hz) - 1"
  let ?tc2 = "tc\<lparr>COUNT := word_of_int (map_range (uint (COUNT tc)) 0 (uint (CC0 tc)) 0 ?cmp),
             CC0 := word_of_int ?cmp\<rparr>"
  from assms(3) have "responsive (TC_SYNCBUSY ?tc2)" by simp
  from TC_sync_responsive [OF this] obtain k where
    "TC_sync ?tc2 = Inr (?tc2\<lparr>TC_STATUS_reads := k\<rparr>)" by blast
  moreover from assms(1) have "TIMER_PRESCALER_DIV * hz \<noteq> 0"
    by (simp add: TIMER_PRESCALER_DIV_def)
  ultimately have "setTimerFrequency hz tc = Inr (?tc2\<lparr>TC_STATUS_reads := k\<rparr>)"
    using compare_range(3,4) [OF assms(1,2)]
    by (simp add: setTimerFrequency_def Let_def)
  then show ?thesis by (rule exI)
qed

text \<open>
  C9. For a positive frequency \<open>hz\<close> with \<open>1024 * hz\<close> not above the clock rate,
  setTimerFrequency returns (on a responsive timer) with the compare register holding
  \<open>floor (CPU_HZ / (TIMER_PRESCALER_DIV * hz)) - 1\<close>, that is
  \<open>48000000 div (1024 * hz) - 1\<close>; the value fits the 16-bit register.
\<close>

theorem setTimerFrequency_compare:
  assumes "0 < hz" and "TIMER_PRESCALER_DIV * hz \<le> CPU_HZ"
    and "responsive (TC_SYNCBUSY tc)"
  shows "\<exists>tc'. setTimerFrequency hz tc = Inr tc'
     \<and> uint (CC0 tc') = CPU_HZ div (TIMER_PRESCALER_DIV * hz) - 1
     \<and> uint (CC0 tc') = \<lfloor>real_of_int CPU_HZ / real_of_int (TIMER_PRESCALER_DIV * hz)\<rfloor> - 1
     \<and> uint (CC0 tc') = 48000000 div (1024 * hz) - 1"
proof -
  let ?cmp = "CPU_HZ div (TIMER_PRESCALER_DIV * hz) - 1"
  from setTimerFrequency_result [OF assms] obtain k where
    run: "setTimerFrequency hz tc =
     Inr (tc\<lparr>COUNT := word_of_int (map_range (uint (COUNT tc)) 0 (uint (CC0 tc)) 0 ?cmp),
             CC0 := word_of_int ?cmp,
             TC_STATUS_reads := k\<rparr>)" by blast
  define cmp where "cmp = ?cmp"
  from compare_range(1,2) [OF assms(1,2)] have "0 \<le> cmp" "cmp < 2 ^ 16"
    by (simp_all add: cmp_def)
  then have "uint (word_of_int cmp :: 16 word) = cmp"
    by (simp add: uint_word_of_int take_bit_int_eq_self)
  then have u: "uint (word_of_int ?cmp :: 16 word) = ?cmp"
    by (simp only: cmp_def)
  have fl: "\<lfloor>real_of_int CPU_HZ / real_of_int (TIMER_PRESCALER_DIV * hz)\<rfloor>
      = CPU_HZ div (TIMER_PRESCALER_DIV * hz)"
    by (rule floor_divide_of_int_eq)
  have cs: "CPU_HZ div (TIMER_PRESCALER_DIV * hz) = 48000000 div (1024 * hz)"
    by (simp add: CPU_HZ_def TIMER_PRESCALER_DIV_def)
  let ?tc' = "tc\<lparr>COUNT := word_of_int (map_range (uint (COUNT tc)) 0 (uint (CC0 tc)) 0 ?cmp),
             CC0 := word_of_int ?cmp,
             TC_STATUS_reads := k\<rparr>"
  have "CC0 ?tc' = word_of_int ?cmp" by simp
  with u have c1: "uint (CC0 ?tc') = ?cmp" by (simp only:)
  from c1 have c2: "uint (CC0 ?tc')
      = \<lfloor>real_of_int CPU_HZ / real_of_int (TIMER_PRESCALER_DIV * hz)\<rfloor> - 1"
    by (simp only: fl)
  from c1 have c3: "uint (CC0 ?tc') = 48000000 div (1024 * hz) - 1"
    by (simp only: cs)
  show ?thesis
    by (intro exI [of _ ?tc'] conjI) (fact run c1 c2 c3)+
qed

theorem setTimerFrequency_compare_witness:
  "(0 :: int) < 100 \<and> TIMER_PRESCALER_DIV * 100 \<le> CPU_HZ
   \<and> responsive (TC_SYNCBUSY tc_regs0)
   \<and> (\<exists>tc'. setTimerFrequency 100 tc_regs0 = Inr tc' \<and> uint (CC0 tc') = 467)"
proof -
  have h: "(0 :: int) < 100" "TIMER_PRESCALER_DIV * 100 \<le> CPU_HZ"
    "responsive (TC_SYNCBUSY tc_regs0)"
    by (simp_all add: TIMER_PRESCALER_DIV_def CPU_HZ_def tc_regs0_def responsive_busy_twice)
  from setTimerFrequency_compare [OF h] h show ?thesis by auto
qed

subsection \<open>The phase across a change of frequency\<close>

lemma round_divide_int:
  assumes "0 < b"
  shows "round (real_of_int a / real_of_int b) = (2 * a + b) div (2 * b)"
proof -
  from assms have "real_of_int a / real_of_int b + 1 / 2
      = real_of_int (2 * a + b) / real_of_int (2 * b)"
    by (simp add: field_simps)
  then show ?thesis
    unfolding round_def by (simp only: floor_divide_of_int_eq)
qed

lemma int_div_bounds:
  fixes a d :: int
  assumes "0 < d"
  shows "(a div d) * d \<le> a" and "a < (a div d + 1) * d"
proof -
  define q r where "q = a div d" and "r = a mod d"
  have a: "a = q * d + r" by (simp add: q_def r_def)
  from assms have r: "0 \<le> r" "r < d" by (simp_all add: r_def)
  have e: "(q + 1) * d = q * d + d" by (simp add: distrib_right)
  from a r show "(a div d) * d \<le> a" unfolding q_def [symmetric] by linarith
  from a r e show "a < (a div d + 1) * d" unfolding q_def [symmetric] by linarith
qed

lemma rescale_bounds:
  fixes p c n :: int
  assumes "0 \<le> p" and "p \<le> c" and "0 < c" and "0 \<le> n"
  shows "0 \<le> (2 * (p * n) + c) div (2 * c)" and "(2 * (p * n) + c) div (2 * c) \<le> n"
proof -
  from assms show "0 \<le> (2 * (p * n) + c) div (2 * c)"
    by (simp add: pos_imp_zdiv_nonneg_iff)
  let ?q = "(2 * (p * n) + c) div (2 * c)"
  from assms(3) have D: "0 < 2 * c" by simp
  from assms have "p * n \<le> c * n" by (intro mult_right_mono) simp_all
  with assms have "2 * (p * n) + c < (n + 1) * (2 * c)" by (simp add: algebra_simps)
  with int_div_bounds(1) [OF D, of "2 * (p * n) + c"]
  have "?q * (2 * c) < (n + 1) * (2 * c)" by linarith
  with D have "?q < n + 1" by (simp only: mult_less_cancel_right_pos)
  then show "?q \<le> n" by simp
qed

lemma half_phase:
  fixes p c1 c2 new :: int
  assumes "0 \<le> p" and "p \<le> c1" and "0 < c1" and "2 * c2 \<le> c1" and "c1 - 2 \<le> 2 * c2"
    and "new = (2 * (p * c2) + c1) div (2 * c1)"
  shows "\<bar>2 * new - p\<bar> \<le> 2"
proof -
  let ?N = "2 * (p * c2) + c1"
  from assms(3) have D: "0 < 2 * c1" by simp
  have lo: "new * (2 * c1) \<le> ?N" and hi: "?N < (new + 1) * (2 * c1)"
    unfolding assms(6) using int_div_bounds [OF D, of ?N] by simp_all
  from assms have "p * (2 * c2) \<le> p * c1" by (intro mult_left_mono) simp_all
  with lo have "c1 * (2 * new) \<le> c1 * (p + 1)" by (simp add: algebra_simps)
  with assms(3) have up: "2 * new \<le> p + 1" by (simp only: mult_le_cancel_left_pos)
  from assms have "p * (c1 - 2) \<le> p * (2 * c2)" by (intro mult_left_mono) simp_all
  moreover from assms have "2 * p \<le> 2 * c1" by simp
  ultimately have "c1 * (p - 1) \<le> ?N" by (simp add: algebra_simps)
  with hi have "c1 * (p - 1) < c1 * (2 * (new + 1))" by (simp add: algebra_simps)
  with assms(3) have "p - 1 < 2 * (new + 1)" by (simp only: mult_less_cancel_left_pos)
  with up show ?thesis by simp
qed

lemma uint_pos: "w \<noteq> 0 \<Longrightarrow> 0 < uint w"
  by (metis unsigned_0 word_less_iff_unsigned unat_gt_0)

lemma round_rescale:
  assumes "0 < c"
  shows "round (real_of_int p * real_of_int n / real_of_int c) = (2 * (p * n) + c) div (2 * c)"
proof -
  have "real_of_int p * real_of_int n = real_of_int (p * n)" by (simp only: of_int_mult)
  then show ?thesis by (simp only: round_divide_int [OF assms])
qed

lemma setTimerFrequency_phase:
  assumes "0 < hz" and "TIMER_PRESCALER_DIV * hz \<le> CPU_HZ"
    and "responsive (TC_SYNCBUSY tc)"
    and "CC0 tc \<noteq> 0" and "COUNT tc \<le> CC0 tc"
  shows "\<exists>tc'. setTimerFrequency hz tc = Inr tc'
     \<and> uint (CC0 tc') = CPU_HZ div (TIMER_PRESCALER_DIV * hz) - 1
     \<and> uint (COUNT tc') =
          (2 * (uint (COUNT tc) * (CPU_HZ div (TIMER_PRESCALER_DIV * hz) - 1)) + uint (CC0 tc))
            div (2 * uint (CC0 tc))
     \<and> TC_SYNCBUSY tc' = TC_SYNCBUSY tc"
proof -
  define cmp where "cmp = CPU_HZ div (TIMER_PRESCALER_DIV * hz) - 1"
  define p where "p = uint (COUNT tc)"
  define c where "c = uint (CC0 tc)"
  define m where "m = (2 * (p * cmp) + c) div (2 * c)"
  from compare_range(1,2) [OF assms(1,2)] have cmp: "0 \<le> cmp" "cmp < 46875"
    by (simp_all add: cmp_def)
  from assms(4) have c: "0 < c"
    unfolding c_def by (rule uint_pos)
  from assms(5) have p: "0 \<le> p" "p \<le> c"
    by (simp_all add: p_def c_def word_le_def)
  from rescale_bounds [OF p c cmp(1)] have m: "0 \<le> m" "m \<le> cmp"
    by (simp_all add: m_def)
  from c have "map_range p 0 c 0 cmp = m"
    by (simp add: map_range_def m_def round_divide_int flip: of_int_mult)
  moreover from setTimerFrequency_result [OF assms(1,2,3)] obtain k where
    "setTimerFrequency hz tc =
     Inr (tc\<lparr>COUNT := word_of_int (map_range p 0 c 0 cmp),
             CC0 := word_of_int cmp, TC_STATUS_reads := k\<rparr>)"
    unfolding cmp_def p_def c_def by blast
  ultimately have run: "setTimerFrequency hz tc =
     Inr (tc\<lparr>COUNT := word_of_int m, CC0 := word_of_int cmp, TC_STATUS_reads := k\<rparr>)"
    by simp
  from cmp have "uint (word_of_int cmp :: 16 word) = cmp"
    by (simp add: uint_word_of_int take_bit_int_eq_self)
  moreover from m cmp have "uint (word_of_int m :: 16 word) = m"
    by (simp add: uint_word_of_int take_bit_int_eq_self)
  ultimately show ?thesis
    unfolding run by (simp add: m_def cmp_def p_def c_def)
qed

text \<open>
  C5. When setTimerFrequency is called on a running, responsive timer (compare register
  not zero, counter within the interval), the counter is rescaled linearly with rounding:
  \<open>newPhase = round (oldPhase * compare_new / compare_old)\<close>, the rescaling being the one
  the spec gives for the library's \<open>map\<close>. Setting a frequency and then twice that
  frequency halves the compare interval, \<open>compare + 1\<close>, (integer division) and puts the
  counter at half its position, up to rounding: twice the new phase differs from the old
  phase by at most 2.
\<close>

theorem setTimerFrequency_rescales_phase:
  assumes "0 < hz" and "TIMER_PRESCALER_DIV * hz \<le> CPU_HZ"
    and "responsive (TC_SYNCBUSY tc)"
    and "CC0 tc \<noteq> 0" and "COUNT tc \<le> CC0 tc"
  shows "\<exists>tc'. setTimerFrequency hz tc = Inr tc'
     \<and> uint (COUNT tc') =
          round (real_of_int (uint (COUNT tc)) * real_of_int (uint (CC0 tc'))
                   / real_of_int (uint (CC0 tc)))
     \<and> (\<forall>phase. TIMER_PRESCALER_DIV * (2 * hz) \<le> CPU_HZ \<and> CC0 tc' \<noteq> 0 \<and> phase \<le> CC0 tc'
          \<longrightarrow> (\<exists>tc''. setTimerFrequency (2 * hz) (tc'\<lparr>COUNT := phase\<rparr>) = Inr tc''
                 \<and> uint (CC0 tc'') + 1 = (uint (CC0 tc') + 1) div 2
                 \<and> uint (COUNT tc'') =
                      round (real_of_int (uint phase) * real_of_int (uint (CC0 tc''))
                               / real_of_int (uint (CC0 tc')))
                 \<and> \<bar>2 * uint (COUNT tc'') - uint phase\<bar> \<le> 2))"
proof -
  define cmp where "cmp = CPU_HZ div (TIMER_PRESCALER_DIV * hz) - 1"
  from setTimerFrequency_phase [OF assms] obtain tc' where
    run: "setTimerFrequency hz tc = Inr tc'"
    and cc: "uint (CC0 tc') = cmp"
    and cnt: "uint (COUNT tc') = (2 * (uint (COUNT tc) * cmp) + uint (CC0 tc)) div (2 * uint (CC0 tc))"
    and busy: "TC_SYNCBUSY tc' = TC_SYNCBUSY tc"
    unfolding cmp_def by blast
  from assms(4) have c: "0 < uint (CC0 tc)"
    by (rule uint_pos)
  have ph: "uint (COUNT tc') =
          round (real_of_int (uint (COUNT tc)) * real_of_int (uint (CC0 tc'))
                   / real_of_int (uint (CC0 tc)))"
    unfolding cnt cc by (rule round_rescale [OF c, symmetric])
  have twice: "\<exists>tc''. setTimerFrequency (2 * hz) (tc'\<lparr>COUNT := phase\<rparr>) = Inr tc''
                 \<and> uint (CC0 tc'') + 1 = (uint (CC0 tc') + 1) div 2
                 \<and> uint (COUNT tc'') =
                      round (real_of_int (uint phase) * real_of_int (uint (CC0 tc''))
                               / real_of_int (uint (CC0 tc')))
                 \<and> \<bar>2 * uint (COUNT tc'') - uint phase\<bar> \<le> 2"
    if h: "TIMER_PRESCALER_DIV * (2 * hz) \<le> CPU_HZ \<and> CC0 tc' \<noteq> 0 \<and> phase \<le> CC0 tc'"
    for phase
  proof -
    define cmp2 where "cmp2 = CPU_HZ div (TIMER_PRESCALER_DIV * (2 * hz)) - 1"
    let ?tc = "tc'\<lparr>COUNT := phase\<rparr>"
    from assms(1) have a1: "0 < 2 * hz" by simp
    from h have a2: "TIMER_PRESCALER_DIV * (2 * hz) \<le> CPU_HZ" by simp
    from assms(3) busy have a3: "responsive (TC_SYNCBUSY ?tc)" by simp
    from h have a4: "CC0 ?tc \<noteq> 0" and a5: "COUNT ?tc \<le> CC0 ?tc" by simp_all
    from setTimerFrequency_phase [OF a1 a2 a3 a4 a5] obtain tc'' where
      run2: "setTimerFrequency (2 * hz) ?tc = Inr tc''"
      and cc2: "uint (CC0 tc'') = cmp2"
      and cnt2: "uint (COUNT tc'') = (2 * (uint phase * cmp2) + cmp) div (2 * cmp)"
      unfolding cmp2_def by (auto simp add: cc)
    from h have c1: "0 < cmp"
      unfolding cc [symmetric] by (simp add: uint_pos)
    from h have p: "0 \<le> uint phase" "uint phase \<le> cmp"
      unfolding cc [symmetric] by (simp_all add: word_le_def)
    have "CPU_HZ div (TIMER_PRESCALER_DIV * hz * 2) = CPU_HZ div (TIMER_PRESCALER_DIV * hz) div 2"
      by (rule zdiv_zmult2_eq) simp
    then have half: "cmp2 + 1 = (cmp + 1) div 2"
      by (simp add: cmp2_def cmp_def mult.assoc mult.commute [of hz 2])
    then have b: "2 * cmp2 \<le> cmp" "cmp - 2 \<le> 2 * cmp2" by presburger+
    from half_phase [OF p c1 b cnt2] have near: "\<bar>2 * uint (COUNT tc'') - uint phase\<bar> \<le> 2" .
    have ph2: "uint (COUNT tc'') =
                      round (real_of_int (uint phase) * real_of_int (uint (CC0 tc''))
                               / real_of_int (uint (CC0 tc')))"
      unfolding cnt2 cc cc2 by (rule round_rescale [OF c1, symmetric])
    from half have "uint (CC0 tc'') + 1 = (uint (CC0 tc') + 1) div 2"
      by (simp only: cc cc2)
    with run2 ph2 near show ?thesis by blast
  qed
  from run ph twice show ?thesis by blast
qed

theorem setTimerFrequency_rescales_phase_witness:
  "(0 :: int) < 100 \<and> TIMER_PRESCALER_DIV * 100 \<le> CPU_HZ
   \<and> responsive (TC_SYNCBUSY tc_regs0)
   \<and> CC0 tc_regs0 \<noteq> 0 \<and> COUNT tc_regs0 \<le> CC0 tc_regs0
   \<and> TIMER_PRESCALER_DIV * (2 * 100) \<le> CPU_HZ
   \<and> (\<exists>tc' tc''. setTimerFrequency 100 tc_regs0 = Inr tc'
         \<and> uint (CC0 tc') = 467 \<and> uint (COUNT tc') = 100
         \<and> CC0 tc' \<noteq> 0 \<and> 100 \<le> CC0 tc'
         \<and> setTimerFrequency (2 * 100) (tc'\<lparr>COUNT := 100\<rparr>) = Inr tc''
         \<and> uint (CC0 tc'') = 233 \<and> uint (COUNT tc'') = 50)"
proof -
  have h: "(0 :: int) < 100" "TIMER_PRESCALER_DIV * 100 \<le> CPU_HZ"
    "responsive (TC_SYNCBUSY tc_regs0)" "CC0 tc_regs0 \<noteq> 0" "COUNT tc_regs0 \<le> CC0 tc_regs0"
    by (simp_all add: TIMER_PRESCALER_DIV_def CPU_HZ_def tc_regs0_def responsive_busy_twice)
  have h2: "TIMER_PRESCALER_DIV * (2 * 100) \<le> CPU_HZ"
    by (simp add: TIMER_PRESCALER_DIV_def CPU_HZ_def)
  have v: "uint (COUNT tc_regs0) = 100" "uint (CC0 tc_regs0) = 467"
    by (simp_all add: tc_regs0_def)
  from setTimerFrequency_rescales_phase [OF h] obtain tc' where
    run: "setTimerFrequency 100 tc_regs0 = Inr tc'"
    and ph: "uint (COUNT tc') =
          round (real_of_int (uint (COUNT tc_regs0)) * real_of_int (uint (CC0 tc'))
                   / real_of_int (uint (CC0 tc_regs0)))"
    and twice: "\<And>phase. TIMER_PRESCALER_DIV * (2 * 100) \<le> CPU_HZ \<and> CC0 tc' \<noteq> 0 \<and> phase \<le> CC0 tc'
          \<Longrightarrow> (\<exists>tc''. setTimerFrequency (2 * 100) (tc'\<lparr>COUNT := phase\<rparr>) = Inr tc''
                 \<and> uint (CC0 tc'') + 1 = (uint (CC0 tc') + 1) div 2
                 \<and> uint (COUNT tc'') =
                      round (real_of_int (uint phase) * real_of_int (uint (CC0 tc''))
                               / real_of_int (uint (CC0 tc')))
                 \<and> \<bar>2 * uint (COUNT tc'') - uint phase\<bar> \<le> 2)"
    by blast
  from setTimerFrequency_phase [OF h] run
  have cc: "uint (CC0 tc') = 467"
    by (auto simp add: TIMER_PRESCALER_DIV_def CPU_HZ_def)
  have cnt: "uint (COUNT tc') = 100"
    unfolding ph cc v by (simp only: round_rescale) simp
  from cc have nz: "CC0 tc' \<noteq> 0" by auto
  from cc have le: "100 \<le> CC0 tc'" by (simp add: word_le_def)
  from twice [of 100] h2 nz le obtain tc'' where
    run2: "setTimerFrequency (2 * 100) (tc'\<lparr>COUNT := 100\<rparr>) = Inr tc''"
    and cc2: "uint (CC0 tc'') + 1 = (uint (CC0 tc') + 1) div 2"
    and ph2: "uint (COUNT tc'') =
                      round (real_of_int (uint (100 :: 16 word)) * real_of_int (uint (CC0 tc''))
                               / real_of_int (uint (CC0 tc')))"
    by blast
  from cc2 cc have c233: "uint (CC0 tc'') = 233" by simp
  have u100: "uint (100 :: 16 word) = 100" by simp
  have cnt2: "uint (COUNT tc'') = 50"
    unfolding ph2 c233 cc u100 by (simp only: round_rescale) simp
  from h h2 run cc cnt nz le run2 c233 cnt2 show ?thesis by blast
qed

end
